theory Spec2Isabelle
  imports Main "HOL-Library.AList"
begin

section \<open>Python values and exceptions\<close>

text \<open>
  The exceptions the decode and post-processing functions of \<^verbatim>\<open>psptrace.py\<close> can raise
  are values of \<open>error\<close>; a function that can raise returns \<open>error + 'a\<close>.
\<close>

datatype error = IndexError | KeyError | ValueError

text \<open>
  The subscription \<^verbatim>\<open>xs[i]\<close> of a list: an index from \<open>-len(xs)\<close> to \<open>-1\<close> is taken
  from the end, and an index outside \<open>-len(xs) \<le> i < len(xs)\<close> raises IndexError.
\<close>

definition py_get :: "'a list \<Rightarrow> int \<Rightarrow> error + 'a" where
  "py_get xs i =
     (if 0 \<le> i \<and> i < int (length xs) then Inr (xs ! nat i)
      else if i < 0 \<and> - int (length xs) \<le> i then Inr (xs ! nat (int (length xs) + i))
      else Inl IndexError)"

text \<open>\<^verbatim>\<open>bytes(xs)\<close> raises ValueError unless every element is in \<^verbatim>\<open>range(256)\<close>.\<close>

definition py_bytes :: "int list \<Rightarrow> error + int list" where
  "py_bytes xs = (if list_all (\<lambda>b. 0 \<le> b \<and> b < 256) xs then Inr xs else Inl ValueError)"

text \<open>\<^verbatim>\<open>int.from_bytes(bs, byteorder='big')\<close>.\<close>

definition from_bytes_big :: "int list \<Rightarrow> int" where
  "from_bytes_big bs = foldl (\<lambda>acc b. acc * 256 + b) 0 bs"

text \<open>The \<^verbatim>\<open>'%d'\<close> format of an integer.\<close>

fun dec_nat :: "nat \<Rightarrow> string" where
  "dec_nat n = (if n < 10 then [''0123456789'' ! n]
                else dec_nat (n div 10) @ [''0123456789'' ! (n mod 10)])"

declare dec_nat.simps [simp del]

definition fmt_d :: "int \<Rightarrow> string" where
  "fmt_d i = (if i < 0 then CHR ''-'' # dec_nat (nat (- i)) else dec_nat (nat i))"

section \<open>Opcode catalog\<close>

record instruction =
  name :: string
  size_i :: nat
  expects_data :: bool

text \<open>The table \<^verbatim>\<open>WINBOND_INSTRUCTIONS\<close> of \<^verbatim>\<open>psptrace.py\<close>, in source order.\<close>

definition WINBOND_INSTRUCTIONS :: "(int \<times> instruction) list" where
  "WINBOND_INSTRUCTIONS = [
  (0x06, \<lparr>name = ''Write Enable'', size_i = 1, expects_data = False\<rparr>),
  (0x50, \<lparr>name = ''Volatile SR Write Enable'', size_i = 1, expects_data = False\<rparr>),
  (0x04, \<lparr>name = ''Write Disable'', size_i = 1, expects_data = False\<rparr>),
  (0xAB, \<lparr>name = ''Release Power-down / ID'', size_i = 4, expects_data = True\<rparr>),
  (0x90, \<lparr>name = ''Manufacturer/Device ID'', size_i = 4, expects_data = True\<rparr>),
  (0x9F, \<lparr>name = ''JEDEC ID'', size_i = 1, expects_data = True\<rparr>),
  (0x4B, \<lparr>name = ''Manufacturer/Device ID'', size_i = 5, expects_data = True\<rparr>),
  (0x03, \<lparr>name = ''Read Data'', size_i = 4, expects_data = True\<rparr>),
  (0x0B, \<lparr>name = ''Fast Read'', size_i = 5, expects_data = True\<rparr>),
  (0x02, \<lparr>name = ''Page Program'', size_i = 6, expects_data = False\<rparr>),
  (0x20, \<lparr>name = ''Sector Erase (4KB)'', size_i = 4, expects_data = False\<rparr>),
  (0x52, \<lparr>name = ''Block Erase (32KB)'', size_i = 4, expects_data = False\<rparr>),
  (0xD8, \<lparr>name = ''Block Erase (64KB)'', size_i = 4, expects_data = False\<rparr>),
  (0xC7, \<lparr>name = ''Chip Erase (0xC7)'', size_i = 1, expects_data = False\<rparr>),
  (0x60, \<lparr>name = ''Chip Erase (0x60)'', size_i = 1, expects_data = False\<rparr>),
  (0x05, \<lparr>name = ''Read Status Register-1 (0x05)'', size_i = 1, expects_data = True\<rparr>),
  (0x01, \<lparr>name = ''Read Status Register-1 (0x01)'', size_i = 1, expects_data = True\<rparr>),
  (0x35, \<lparr>name = ''Read Status Register-2 (0x35)'', size_i = 1, expects_data = True\<rparr>),
  (0x31, \<lparr>name = ''Read Status Register-2 (0x31)'', size_i = 1, expects_data = True\<rparr>),
  (0x15, \<lparr>name = ''Read Status Register-3 (0x15)'', size_i = 1, expects_data = True\<rparr>),
  (0x11, \<lparr>name = ''Read Status Register-3 (0x11'', size_i = 1, expects_data = True\<rparr>),
  (0x5A, \<lparr>name = ''Read SFDP Register'', size_i = 5, expects_data = True\<rparr>),
  (0x44, \<lparr>name = ''Erase Security Register'', size_i = 4, expects_data = False\<rparr>),
  (0x42, \<lparr>name = ''Program Security Register'', size_i = 6, expects_data = False\<rparr>),
  (0x48, \<lparr>name = ''Read Security Register'', size_i = 5, expects_data = True\<rparr>),
  (0x7E, \<lparr>name = ''Global Block Lock'', size_i = 1, expects_data = False\<rparr>),
  (0x98, \<lparr>name = ''Global Block Unlock'', size_i = 1, expects_data = False\<rparr>),
  (0x3D, \<lparr>name = ''Read Block Lock'', size_i = 4, expects_data = True\<rparr>),
  (0x36, \<lparr>name = ''Individual Block Lock'', size_i = 4, expects_data = False\<rparr>),
  (0x39, \<lparr>name = ''Individual Block Unlock'', size_i = 4, expects_data = False\<rparr>),
  (0x75, \<lparr>name = ''Erase / Program Suspend'', size_i = 1, expects_data = False\<rparr>),
  (0x7A, \<lparr>name = ''Erase / Program Resume'', size_i = 1, expects_data = False\<rparr>),
  (0xB9, \<lparr>name = ''Power-down'', size_i = 1, expects_data = False\<rparr>),
  (0x66, \<lparr>name = ''Enable Reset'', size_i = 1, expects_data = False\<rparr>),
  (0x99, \<lparr>name = ''Reset Device'', size_i = 1, expects_data = False\<rparr>),
  (0xEB, \<lparr>name = ''Fast Read Quad I/O'', size_i = 4, expects_data = True\<rparr>),
  (0xE7, \<lparr>name = ''Word Read Quad I/O'', size_i = 4, expects_data = True\<rparr>),
  (0xE3, \<lparr>name = ''Octal Word Read Quad I/O'', size_i = 4, expects_data = True\<rparr>),
  (0x94, \<lparr>name = ''Mftr./Device ID Quad I/O'', size_i = 4, expects_data = True\<rparr>)]"

text \<open>\<^verbatim>\<open>instr in WINBOND_INSTRUCTIONS\<close>: membership among the keys of the table.\<close>

definition is_instruction :: "int \<Rightarrow> bool" where
  "is_instruction b = (map_of WINBOND_INSTRUCTIONS b \<noteq> None)"

section \<open>Address classifier (RangeDict)\<close>

text \<open>
  A Python \<^verbatim>\<open>range(start, stop)\<close> of step 1 is the pair \<open>(start, stop)\<close>. Membership of an
  integer is \<open>start \<le> x < stop\<close>; two ranges are equal as dictionary keys when they hold
  the same sequence, so all empty ranges are one key.
\<close>

type_synonym range = "int \<times> int"

definition in_range :: "int \<Rightarrow> range \<Rightarrow> bool" where
  "in_range x r = (fst r \<le> x \<and> x < snd r)"

definition range_eq :: "range \<Rightarrow> range \<Rightarrow> bool" where
  "range_eq r s = ((snd r \<le> fst r \<and> snd s \<le> fst s) \<or> r = s)"

text \<open>
  A dictionary keyed by ranges is an association list in insertion order with keys that
  are pairwise different under \<open>range_eq\<close>. Storing under a key that is already present
  overwrites the value and keeps the key's position, as a Python \<^verbatim>\<open>dict\<close> does.
\<close>

fun rd_store :: "range \<Rightarrow> 'v \<Rightarrow> (range \<times> 'v) list \<Rightarrow> (range \<times> 'v) list" where
  "rd_store k v [] = [(k, v)]"
| "rd_store k v ((k', v') # ps) =
     (if range_eq k k' then (k', v) # ps else (k', v') # rd_store k v ps)"

definition rd_build :: "(range \<times> 'v) list \<Rightarrow> (range \<times> 'v) list" where
  "rd_build items = foldl (\<lambda>d (k, v). rd_store k v d) [] items"

text \<open>
  \<^verbatim>\<open>RangeDict.__getitem__(item)\<close> for an integer \<open>item\<close>: the keys are visited in insertion
  order and the value stored under the first key that contains \<open>item\<close> is returned; the
  method falls off its end, returning \<^verbatim>\<open>None\<close>, when no key contains it.
\<close>

fun RangeDict_getitem :: "(range \<times> 'v) list \<Rightarrow> int \<Rightarrow> 'v option" where
  "RangeDict_getitem [] item = None"
| "RangeDict_getitem ((key, v) # ps) item =
     (if in_range item key then Some v else RangeDict_getitem ps item)"

text \<open>The entries of a dictionary whose range contains \<open>x\<close>, in order.\<close>

definition containing :: "int \<Rightarrow> (range \<times> 'v) list \<Rightarrow> (range \<times> 'v) list" where
  "containing x d = filter (\<lambda>(k, v). in_range x k) d"

text \<open>
  The firmware layout that \<^verbatim>\<open>psptool\<close> supplies: directory entries with
  \<^verbatim>\<open>get_address()\<close>, \<^verbatim>\<open>buffer_size\<close> and \<^verbatim>\<open>type\<close>, and directories with
  \<^verbatim>\<open>get_address()\<close>, \<^verbatim>\<open>len(directory)\<close> and \<^verbatim>\<open>magic\<close>.
\<close>

record fw_entry =
  e_address :: int
  buffer_size :: int
  e_type :: int

record fw_directory =
  d_address :: int
  d_len :: nat
  magic :: string

datatype region_type = EntryType int | Label string

text \<open>
  The dictionary \<^verbatim>\<open>type_at_address_range\<close> of \<^verbatim>\<open>find_read_accesses\<close>: the entries whose
  size is not \<^verbatim>\<open>0xffffffff\<close>, then the directories, then the fixed firmware entry table.
\<close>

definition region_items :: "fw_entry list \<Rightarrow> fw_directory list \<Rightarrow> (range \<times> region_type) list" where
  "region_items all_entries directories =
     map (\<lambda>entry. ((e_address entry, e_address entry + buffer_size entry), EntryType (e_type entry)))
         (filter (\<lambda>entry. buffer_size entry \<noteq> 0xffffffff) all_entries)
     @ map (\<lambda>directory. ((d_address directory, d_address directory + int (d_len directory)),
                          Label (''Directory: '' @ magic directory)))
           directories
     @ [((0x20000, 0x20040), Label ''Firmware Entry Table'')]"

definition type_at_address_range :: "fw_entry list \<Rightarrow> fw_directory list \<Rightarrow> (range \<times> region_type) list" where
  "type_at_address_range all_entries directories = rd_build (region_items all_entries directories)"

section \<open>Access records\<close>

text \<open>
  A read access is the dictionary built in \<^verbatim>\<open>find_read_accesses\<close>. The key
  \<^verbatim>\<open>duplicate_count\<close> is absent until duplicate aggregation sets it, and
  \<^verbatim>\<open>last_end_time\<close> is present only in records of the quad-I/O variant: both are options.
\<close>

record access =
  instr_index :: int
  start_time :: int
  end_time :: int
  duration :: int
  latency :: int
  address :: int
  size_a :: int
  type_a :: "region_type option"
  info :: "string list"
  duplicate_count :: "int option"
  last_end_time :: "int option"

text \<open>
  A collection of accesses is a Python \<^verbatim>\<open>dict\<close> keyed by start time: an association list
  in insertion order with distinct keys; \<^verbatim>\<open>d[k] = v\<close> is \<open>AList.update\<close>, \<^verbatim>\<open>del d[k]\<close> is
  \<open>AList.delete\<close>, and \<^verbatim>\<open>sorted(d.items())\<close> sorts by key.
\<close>

type_synonym accesses = "(int \<times> access) list"

definition sorted_items :: "(int \<times> 'a) list \<Rightarrow> (int \<times> 'a) list" where
  "sorted_items d = sort_key fst d"

section \<open>Access decoder, single-line variant\<close>

text \<open>
  \<^verbatim>\<open>count_data_bytes(base_addr, s)\<close>: the counter starts at 1 and grows while
  \<^verbatim>\<open>s[base_addr + data_bytes]\<close> exists and is not an opcode; the IndexError of the lookup
  past the end is caught and ends the loop.
\<close>

function count_loop :: "nat \<Rightarrow> int list \<Rightarrow> nat \<Rightarrow> nat" where
  "count_loop base_addr s data_bytes =
     (if base_addr + data_bytes < length s
      then (if \<not> is_instruction (s ! (base_addr + data_bytes))
            then count_loop base_addr s (data_bytes + 1)
            else data_bytes)
      else data_bytes)"
  by pat_completeness auto
termination
  by (relation "measure (\<lambda>(base_addr, s, data_bytes). length s - (base_addr + data_bytes))") auto

declare count_loop.simps [simp del]

definition count_data_bytes :: "nat \<Rightarrow> int list \<Rightarrow> nat" where
  "count_data_bytes base_addr s = count_loop base_addr s 1"

text \<open>
  The local state of the loop of \<^verbatim>\<open>find_read_accesses\<close>. The counters
  \<^verbatim>\<open>unparsable_instructions\<close> and \<^verbatim>\<open>invalid_instructions\<close> are written and never read,
  and every name of an instruction is a key of the first, so they are left out.
\<close>

record decoder_state =
  st_index :: nat
  st_last_end_time :: int
  st_end_time :: int
  st_instr_index :: nat
  st_read_accesses :: accesses

text \<open>One iteration of the loop of case 1, entered with \<open>index < len(data['mosi'])\<close>.\<close>

definition mosi_step ::
  "(range \<times> region_type) list \<Rightarrow> int list \<Rightarrow> int list \<Rightarrow> decoder_state \<Rightarrow> error + decoder_state" where
  "mosi_step type_at time mosi st =
     (let index = st_index st; instr = mosi ! index in
      if instr = 0x03 \<or> instr = 0x0B then
        (case map_of WINBOND_INSTRUCTIONS instr of
           None \<Rightarrow> Inl KeyError
         | Some ins \<Rightarrow>
            (let instr_size = size_i ins;
                 data_bytes = count_data_bytes (index + instr_size) mosi in
             case py_get time (int index) of Inl e \<Rightarrow> Inl e | Inr start_time' \<Rightarrow>
            (case py_get time (int (index + data_bytes)) of Inl e \<Rightarrow> Inl e | Inr end_time' \<Rightarrow>
            (case py_bytes (take 3 (drop (index + 1) mosi)) of Inl e \<Rightarrow> Inl e | Inr bs \<Rightarrow>
               (let address' = from_bytes_big bs in
                Inr \<lparr>st_index = index + (instr_size + data_bytes),
                     st_last_end_time = end_time',
                     st_end_time = end_time',
                     st_instr_index = st_instr_index st + 1,
                     st_read_accesses = AList.update start_time'
                       \<lparr>instr_index = int (st_instr_index st),
                        start_time = start_time',
                        end_time = end_time',
                        duration = end_time' - start_time',
                        latency = start_time' - st_last_end_time st,
                        address = address',
                        size_a = int data_bytes,
                        type_a = RangeDict_getitem type_at address',
                        info = [],
                        duplicate_count = None,
                        last_end_time = None\<rparr>
                       (st_read_accesses st)\<rparr>)))))
      else
        (case map_of WINBOND_INSTRUCTIONS instr of
           Some ins \<Rightarrow>
            (let data_bytes = (if expects_data ins
                               then count_data_bytes (index + size_i ins) mosi else 0) in
             Inr (st\<lparr>st_last_end_time := st_end_time st,
                     st_index := index + (size_i ins + data_bytes),
                     st_instr_index := st_instr_index st + 1\<rparr>))
         | None \<Rightarrow>
             Inr (st\<lparr>st_index := index + 1, st_instr_index := st_instr_index st + 1\<rparr>)))"

text \<open>
  Every frame length of the table is at least one sample, so every iteration moves the
  cursor forward and the loop ends.
\<close>

lemma instruction_sizes:
  "list_all (\<lambda>(k, ins). 1 \<le> size_i ins \<and> size_i ins \<le> 6) WINBOND_INSTRUCTIONS"
  unfolding WINBOND_INSTRUCTIONS_def by simp

lemma size_i_bounds:
  assumes "map_of WINBOND_INSTRUCTIONS b = Some ins"
  shows "1 \<le> size_i ins" and "size_i ins \<le> 6"
proof -
  from assms have "(b, ins) \<in> set WINBOND_INSTRUCTIONS" by (rule map_of_SomeD)
  with instruction_sizes have "1 \<le> size_i ins \<and> size_i ins \<le> 6"
    by (auto simp: list_all_iff)
  then show "1 \<le> size_i ins" and "size_i ins \<le> 6" by simp_all
qed

lemma mosi_step_index:
  assumes "mosi_step type_at time mosi st = Inr st'"
  shows "st_index st < st_index st'"
proof (cases "map_of WINBOND_INSTRUCTIONS (mosi ! st_index st)")
  case None
  with assms show ?thesis
    by (auto simp: mosi_step_def Let_def split: if_splits)
next
  case (Some ins)
  from size_i_bounds(1)[OF Some] have "1 \<le> size_i ins" .
  with assms Some show ?thesis
    by (auto simp: mosi_step_def Let_def split: if_splits sum.splits)
qed

function mosi_loop ::
  "(range \<times> region_type) list \<Rightarrow> int list \<Rightarrow> int list \<Rightarrow> decoder_state \<Rightarrow> error + decoder_state" where
  "mosi_loop type_at time mosi st =
     (if st_index st < length mosi
      then (case mosi_step type_at time mosi st of
              Inl e \<Rightarrow> Inl e
            | Inr st' \<Rightarrow> mosi_loop type_at time mosi st')
      else Inr st)"
  by pat_completeness auto
termination
  by (relation "measure (\<lambda>(type_at, time, mosi, st). length mosi - st_index st)")
     (auto dest: mosi_step_index)

declare mosi_loop.simps [simp del]

text \<open>
  Case 1 of \<^verbatim>\<open>find_read_accesses\<close>: the assignment \<^verbatim>\<open>end_time = data['time'][index]\<close>
  with \<open>index = 0\<close> comes before the loop.
\<close>

definition mosi_run ::
  "(range \<times> region_type) list \<Rightarrow> int list \<Rightarrow> int list \<Rightarrow> error + decoder_state" where
  "mosi_run type_at time mosi =
     (case py_get time 0 of
        Inl e \<Rightarrow> Inl e
      | Inr end_time' \<Rightarrow>
          mosi_loop type_at time mosi
            \<lparr>st_index = 0, st_last_end_time = 0, st_end_time = end_time',
             st_instr_index = 0, st_read_accesses = []\<rparr>)"

definition find_read_accesses_mosi ::
  "(range \<times> region_type) list \<Rightarrow> int list \<Rightarrow> int list \<Rightarrow> error + accesses" where
  "find_read_accesses_mosi type_at time mosi =
     (case mosi_run type_at time mosi of
        Inl e \<Rightarrow> Inl e
      | Inr st \<Rightarrow> Inr (st_read_accesses st))"

text \<open>
  The number of samples the instruction at the cursor consumes: its frame length from
  the table plus the counted data length; one sample for a byte that is not in the table.
  It is the amount every branch of the loop adds to \<^verbatim>\<open>index\<close>.
\<close>

definition consumed :: "int list \<Rightarrow> nat \<Rightarrow> nat" where
  "consumed mosi index =
     (case map_of WINBOND_INSTRUCTIONS (mosi ! index) of
        None \<Rightarrow> 1
      | Some ins \<Rightarrow> size_i ins
          + (if expects_data ins then count_data_bytes (index + size_i ins) mosi else 0))"

lemma consumed_pos: "1 \<le> consumed mosi index"
  using size_i_bounds(1) by (auto simp: consumed_def split: option.splits intro: trans_le_add1)

text \<open>The consumed counts of the instructions decoded from the cursor on, in order.\<close>

function decoded_lengths :: "int list \<Rightarrow> nat \<Rightarrow> nat list" where
  "decoded_lengths mosi index =
     (if index < length mosi
      then consumed mosi index # decoded_lengths mosi (index + consumed mosi index)
      else [])"
  by pat_completeness auto
termination
proof (relation "measure (\<lambda>(mosi, index). length mosi - index)")
  show "wf (measure (\<lambda>(mosi, index). length mosi - index))" by simp
next
  fix mosi :: "int list" and index :: nat
  assume "index < length mosi"
  with consumed_pos[of mosi index]
  show "((mosi, index + consumed mosi index), (mosi, index)) \<in> measure (\<lambda>(mosi, index). length mosi - index)"
    by simp
qed

declare decoded_lengths.simps [simp del]

section \<open>Access decoder, quad-I/O variant\<close>

text \<open>
  In case 2 a record is stored when its instruction is seen, without the keys
  \<^verbatim>\<open>size\<close>, \<^verbatim>\<open>end_time\<close>, \<^verbatim>\<open>duration\<close> and \<^verbatim>\<open>latency\<close>; they are assigned when the
  next instruction is seen or after the loop. A value of the dictionary is therefore
  either such an open record or a complete one.
\<close>

record open_access =
  o_instr_index :: int
  o_start_time :: int
  o_last_end_time :: int
  o_address :: int
  o_type :: "region_type option"
  o_info :: "string list"

datatype entry = Open open_access | Done access

record quad_state =
  q_index :: nat
  q_last_index :: nat
  q_instr_index :: nat
  q_last_start_time :: int
  q_last_end_time :: int
  q_read_accesses :: "(int \<times> entry) list"

text \<open>
  The block that closes the record stored under \<^verbatim>\<open>last_start_time\<close>; it occurs twice in
  the source, inside the loop under \<^verbatim>\<open>if instr_index > 0\<close> and unguarded after the loop.
  It returns \<^verbatim>\<open>previous_end_time\<close> with the dictionary.
\<close>

definition close_previous ::
  "int list \<Rightarrow> nat \<Rightarrow> nat \<Rightarrow> int \<Rightarrow> (int \<times> entry) list \<Rightarrow> error + (int \<times> (int \<times> entry) list)" where
  "close_previous time index last_index last_start_time read_accesses =
     (case map_of read_accesses last_start_time of
        None \<Rightarrow> Inl KeyError
      | Some ent \<Rightarrow>
         (let size' = int index - int last_index - 2 in
          case (case ent of Open r \<Rightarrow> Some (o_last_end_time r) | Done a \<Rightarrow> last_end_time a) of
            None \<Rightarrow> Inl KeyError
          | Some previous_last_end_time \<Rightarrow>
             (let previous_start_time = (case ent of Open r \<Rightarrow> o_start_time r | Done a \<Rightarrow> start_time a) in
              case py_get time (int index - 1) of
                Inl e \<Rightarrow> Inl e
              | Inr previous_end_time \<Rightarrow>
                 (let previous_duration = previous_end_time - previous_start_time;
                      previous_latency = previous_start_time - previous_last_end_time;
                      closed = (case ent of
                          Open r \<Rightarrow>
                            \<lparr>instr_index = o_instr_index r,
                             start_time = o_start_time r,
                             end_time = previous_end_time,
                             duration = previous_duration,
                             latency = previous_latency,
                             address = o_address r,
                             size_a = size',
                             type_a = o_type r,
                             info = o_info r,
                             duplicate_count = None,
                             last_end_time = Some (o_last_end_time r)\<rparr>
                        | Done a \<Rightarrow>
                            a\<lparr>size_a := size', end_time := previous_end_time,
                              duration := previous_duration, latency := previous_latency\<rparr>)
                  in Inr (previous_end_time,
                          AList.update last_start_time (Done closed) read_accesses)))))"

text \<open>One iteration of the loop of case 2, entered with \<open>index < len(data['value']) - 1\<close>.\<close>

definition quad_step ::
  "(range \<times> region_type) list \<Rightarrow> int list \<Rightarrow> int list \<Rightarrow> quad_state \<Rightarrow> error + quad_state" where
  "quad_step type_at time vals st =
     (let index = q_index st; value' = vals ! index; next_value = vals ! (index + 1) in
      if value' \<in> set [0x03, 0x0B, 0xEB, 0xE7, 0xE3, 0xEC] \<and> next_value > 0xFF then
        (let address' = next_value in
         case py_get time (int index) of
           Inl e \<Rightarrow> Inl e
         | Inr start_time' \<Rightarrow>
            (let type' = RangeDict_getitem type_at address' in
             case (if q_instr_index st > 0
                   then (case close_previous time index (q_last_index st) (q_last_start_time st)
                                (q_read_accesses st) of
                           Inl e \<Rightarrow> Inl e
                         | Inr (previous_end_time, d) \<Rightarrow> Inr (Some previous_end_time, d))
                   else Inr (None, q_read_accesses st)) of
               Inl e \<Rightarrow> Inl e
             | Inr (previous_end_time, d) \<Rightarrow>
                 Inr \<lparr>q_index = index + 2,
                      q_last_index = index,
                      q_instr_index = q_instr_index st + 1,
                      q_last_start_time = start_time',
                      q_last_end_time = (case previous_end_time of Some t \<Rightarrow> t | None \<Rightarrow> 0),
                      q_read_accesses = AList.update start_time'
                        (Open \<lparr>o_instr_index = int (q_instr_index st),
                               o_start_time = start_time',
                               o_last_end_time = q_last_end_time st,
                               o_address = address',
                               o_type = type',
                               o_info = (if value' \<in> set [0xEB, 0xE7, 0xE3] then [''QSPI''] else [])\<rparr>)
                        d\<rparr>))
      else Inr (st\<lparr>q_index := index + 1\<rparr>))"

lemma quad_step_index:
  assumes "quad_step type_at time vals st = Inr st'"
  shows "q_index st < q_index st'"
  using assms
  by (auto simp: quad_step_def Let_def split: if_splits sum.splits prod.splits)

function quad_loop ::
  "(range \<times> region_type) list \<Rightarrow> int list \<Rightarrow> int list \<Rightarrow> quad_state \<Rightarrow> error + quad_state" where
  "quad_loop type_at time vals st =
     (if int (q_index st) < int (length vals) - 1
      then (case quad_step type_at time vals st of
              Inl e \<Rightarrow> Inl e
            | Inr st' \<Rightarrow> quad_loop type_at time vals st')
      else Inr st)"
  by pat_completeness auto
termination
  by (relation "measure (\<lambda>(type_at, time, vals, st). length vals - q_index st)")
     (auto dest: quad_step_index)

declare quad_loop.simps [simp del]

definition find_read_accesses_value ::
  "(range \<times> region_type) list \<Rightarrow> int list \<Rightarrow> int list \<Rightarrow> error + (int \<times> entry) list" where
  "find_read_accesses_value type_at time vals =
     (case py_get time 0 of
        Inl e \<Rightarrow> Inl e
      | Inr end_time' \<Rightarrow>
         (case quad_loop type_at time vals
                 \<lparr>q_index = 0, q_last_index = 0, q_instr_index = 0, q_last_start_time = 0,
                  q_last_end_time = 0, q_read_accesses = []\<rparr> of
            Inl e \<Rightarrow> Inl e
          | Inr st \<Rightarrow>
             (case close_previous time (q_index st) (q_last_index st) (q_last_start_time st)
                     (q_read_accesses st) of
                Inl e \<Rightarrow> Inl e
              | Inr (previous_end_time, d) \<Rightarrow> Inr d)))"

text \<open>
  \<^verbatim>\<open>find_read_accesses(data, psptool)\<close>: the raw capture holds the key \<^verbatim>\<open>time\<close> and either
  \<^verbatim>\<open>mosi\<close> or \<^verbatim>\<open>value\<close>.
\<close>

datatype capture = Mosi "int list" "int list" | Value "int list" "int list"

definition find_read_accesses ::
  "capture \<Rightarrow> fw_entry list \<Rightarrow> fw_directory list \<Rightarrow> error + (int \<times> entry) list" where
  "find_read_accesses data all_entries directories =
     (let type_at = type_at_address_range all_entries directories in
      case data of
        Mosi time mosi \<Rightarrow>
          (case find_read_accesses_mosi type_at time mosi of
             Inl e \<Rightarrow> Inl e
           | Inr d \<Rightarrow> Inr (map (\<lambda>(k, a). (k, Done a)) d))
      | Value time vals \<Rightarrow> find_read_accesses_value type_at time vals)"

section \<open>Post-processing\<close>

definition MAXIMUM_AGGREGATION_COUNT :: int where
  "MAXIMUM_AGGREGATION_COUNT = 8"

definition TIME_BLOCK_LATENCY_THRESHOLD :: int where
  "TIME_BLOCK_LATENCY_THRESHOLD = 50"

subsection \<open>Duplicate aggregation\<close>

text \<open>\<^verbatim>\<open>deque([], maxlen=200).append(x)\<close>: a full deque drops its leftmost element.\<close>

definition deque_append :: "'a list \<Rightarrow> 'a \<Rightarrow> 'a list" where
  "deque_append q x = (if length q < 200 then q @ [x] else tl q @ [x])"

text \<open>\<^verbatim>\<open>q.index(x)\<close> for an element that occurs in \<open>q\<close>, and \<^verbatim>\<open>del q[i]\<close>.\<close>

fun index_of :: "'a list \<Rightarrow> 'a \<Rightarrow> nat" where
  "index_of [] x = 0"
| "index_of (y # ys) x = (if y = x then 0 else Suc (index_of ys x))"

definition del_at :: "nat \<Rightarrow> 'a list \<Rightarrow> 'a list" where
  "del_at i q = take i q @ drop (Suc i) q"

text \<open>
  The first loop of \<^verbatim>\<open>aggregate_duplicates\<close> over \<^verbatim>\<open>sorted(read_accesses.items())\<close>, with
  the dictionary \<^verbatim>\<open>aggregated_accesses\<close> and the two deques as state.
\<close>

fun aggregate_loop ::
  "(int \<times> access) list \<Rightarrow> accesses \<Rightarrow> int list \<Rightarrow> int list \<Rightarrow> error + accesses" where
  "aggregate_loop [] aggregated_accesses recent_addresses recent_originals =
     Inr aggregated_accesses"
| "aggregate_loop ((time, vals) # rest) aggregated_accesses recent_addresses recent_originals =
     (let address' = address vals in
      if address' \<notin> set recent_addresses then
        (case map_of aggregated_accesses time of
           None \<Rightarrow> Inl KeyError
         | Some a \<Rightarrow>
             aggregate_loop rest
               (AList.update time (a\<lparr>duplicate_count := Some 1\<rparr>) aggregated_accesses)
               (deque_append recent_addresses address')
               (deque_append recent_originals time))
      else
        (let index = index_of recent_addresses address' in
         case py_get recent_originals (int index) of
           Inl e \<Rightarrow> Inl e
         | Inr original_access_time \<Rightarrow>
            (case map_of aggregated_accesses original_access_time of
               None \<Rightarrow> Inl KeyError
             | Some orig \<Rightarrow>
                (case duplicate_count orig of
                   None \<Rightarrow> Inl KeyError
                 | Some c \<Rightarrow>
                    (if c < MAXIMUM_AGGREGATION_COUNT then
                       (let agg = AList.update original_access_time
                                    (orig\<lparr>duplicate_count := Some (c + 1)\<rparr>) aggregated_accesses in
                        if map_of agg time = None then Inl KeyError
                        else aggregate_loop rest (AList.delete time agg)
                               recent_addresses recent_originals)
                     else
                       (if map_of aggregated_accesses time = None then Inl KeyError
                        else aggregate_loop rest (AList.delete time aggregated_accesses)
                               (del_at index recent_addresses)
                               (del_at index recent_originals)))))))"

text \<open>The second loop appends the note \<^verbatim>\<open>'x%d' % duplicate_count\<close> to every survivor.\<close>

fun add_notes :: "accesses \<Rightarrow> error + accesses" where
  "add_notes [] = Inr []"
| "add_notes ((time, vals) # rest) =
     (case duplicate_count vals of
        None \<Rightarrow> Inl KeyError
      | Some c \<Rightarrow>
         (case add_notes rest of
            Inl e \<Rightarrow> Inl e
          | Inr rest' \<Rightarrow> Inr ((time, vals\<lparr>info := info vals @ [CHR ''x'' # fmt_d c]\<rparr>) # rest')))"

definition aggregate_duplicates :: "accesses \<Rightarrow> error + accesses" where
  "aggregate_duplicates read_accesses =
     (case aggregate_loop (sorted_items read_accesses) read_accesses [] [] of
        Inl e \<Rightarrow> Inl e
      | Inr aggregated_accesses \<Rightarrow> add_notes aggregated_accesses)"

subsection \<open>Type collapsing\<close>

text \<open>
  \<^verbatim>\<open>last_access\<close> holds the type, address, size and duplicate count of the access of the
  previous iteration; before the first iteration its address is \<^verbatim>\<open>None\<close>, which is the
  value \<open>None\<close> here.
\<close>

record last_access =
  la_type :: "region_type option"
  la_address :: int
  la_size :: int
  la_duplicate_count :: "int option"

text \<open>The assignment to \<^verbatim>\<open>last_access\<close> that ends every iteration.\<close>

definition as_last :: "access \<Rightarrow> last_access option" where
  "as_last vals = Some \<lparr>la_type = type_a vals, la_address = address vals, la_size = size_a vals,
                         la_duplicate_count = duplicate_count vals\<rparr>"

text \<open>
  The record that replaces \<^verbatim>\<open>collapsed_read_accesses[-1]\<close> on a merge. The dictionary
  written there has no key \<^verbatim>\<open>duplicate_count\<close>.
\<close>

definition merged :: "access \<Rightarrow> access \<Rightarrow> last_access option \<Rightarrow> access" where
  "merged prev_values vals last_acc =
     (let info1 = (if ''[c]'' \<notin> set (info prev_values)
                   then info prev_values @ [''[c]''] else info prev_values);
          info2 = (if duplicate_count vals \<noteq> Option.bind last_acc la_duplicate_count
                        \<and> ''~'' \<notin> set info1
                   then info1 @ [''~''] else info1)
      in \<lparr>instr_index = instr_index prev_values,
          start_time = start_time prev_values,
          end_time = end_time vals,
          duration = duration prev_values + duration vals,
          latency = latency prev_values,
          address = address prev_values,
          size_a = size_a prev_values + size_a vals,
          type_a = type_a prev_values,
          info = info2,
          duplicate_count = None,
          last_end_time = None\<rparr>)"

definition merge_test :: "access \<Rightarrow> last_access option \<Rightarrow> bool" where
  "merge_test vals last_acc = (case last_acc of
       None \<Rightarrow> False
     | Some la \<Rightarrow> type_a vals = la_type la \<and> address vals \<le> la_address la + la_size la)"

fun collapse_loop ::
  "(int \<times> access) list \<Rightarrow> access list \<Rightarrow> last_access option
     \<Rightarrow> error + (access list \<times> last_access option)" where
  "collapse_loop [] collapsed_read_accesses last_acc = Inr (collapsed_read_accesses, last_acc)"
| "collapse_loop ((time, vals) # rest) collapsed_read_accesses last_acc =
     (if merge_test vals last_acc then
        (if collapsed_read_accesses = [] then Inl IndexError
         else collapse_loop rest
                (butlast collapsed_read_accesses
                   @ [merged (last collapsed_read_accesses) vals last_acc])
                (as_last vals))
      else collapse_loop rest (collapsed_read_accesses @ [vals]) (as_last vals))"

text \<open>\<^verbatim>\<open>{values['start_time']: values for values in collapsed_read_accesses}\<close>.\<close>

definition dict_by_start_time :: "access list \<Rightarrow> accesses" where
  "dict_by_start_time vs = foldl (\<lambda>d v. AList.update (start_time v) v d) [] vs"

definition collapse_entry_types :: "accesses \<Rightarrow> error + accesses" where
  "collapse_entry_types read_accesses =
     (case collapse_loop (sorted_items read_accesses) [] None of
        Inl e \<Rightarrow> Inl e
      | Inr (collapsed_read_accesses, last_acc) \<Rightarrow> Inr (dict_by_start_time collapsed_read_accesses))"

subsection \<open>Timestamp normalization\<close>

text \<open>
  \<^verbatim>\<open>min\<close> of an empty sequence raises ValueError. The new dictionary receives the keys of
  the old one, each once and in the same order, with the shifted records.
\<close>

definition do_normalize_timestamps :: "accesses \<Rightarrow> error + accesses" where
  "do_normalize_timestamps read_accesses =
     (if read_accesses = [] then Inl ValueError
      else (let min_time = Min (set (map (\<lambda>(k, v). start_time v) read_accesses)) in
            Inr (map (\<lambda>(k, v). (k, v\<lparr>start_time := start_time v - min_time,
                                       end_time := end_time v - min_time\<rparr>))
                     read_accesses)))"

subsection \<open>Overview reduction\<close>

text \<open>
  A summary row is \<^verbatim>\<open>{**values, 'lowest_access': ..., 'highest_access': ...}\<close>: the fields
  of the access that opened it and the two bounds.
\<close>

record overview_row =
  row_values :: access
  lowest_access :: int
  highest_access :: int

text \<open>The test \<^verbatim>\<open>'CCP' in values['info']\<close>.\<close>

definition is_ccp :: "access \<Rightarrow> bool" where
  "is_ccp vals = (''CCP'' \<in> set (info vals))"

text \<open>
  The loop of \<^verbatim>\<open>get_overview_read_accesses\<close>; it returns the dictionary of rows together
  with \<^verbatim>\<open>known_types\<close>.
\<close>

fun overview_loop ::
  "(int \<times> access) list \<Rightarrow> (int \<times> overview_row) list
     \<Rightarrow> ((region_type option \<times> bool) \<times> int) list
     \<Rightarrow> error + ((int \<times> overview_row) list \<times> ((region_type option \<times> bool) \<times> int) list)" where
  "overview_loop [] overview_read_accesses known_types = Inr (overview_read_accesses, known_types)"
| "overview_loop ((start_time', vals) # rest) overview_read_accesses known_types =
     (let latency_in_us = latency vals div 1000;
          known = (if latency_in_us > TIME_BLOCK_LATENCY_THRESHOLD then [] else known_types)
      in case map_of known (type_a vals, is_ccp vals) of
           None \<Rightarrow>
             overview_loop rest
               (AList.update start_time'
                  \<lparr>row_values = vals, lowest_access = address vals,
                   highest_access = address vals + size_a vals\<rparr>
                  overview_read_accesses)
               (AList.update (type_a vals, is_ccp vals) start_time' known)
         | Some original_access_time \<Rightarrow>
            (case map_of overview_read_accesses original_access_time of
               None \<Rightarrow> Inl KeyError
             | Some row \<Rightarrow>
                 overview_loop rest
                   (AList.update original_access_time
                      (row\<lparr>lowest_access := min (lowest_access row) (address vals),
                           highest_access := max (highest_access row) (address vals + size_a vals)\<rparr>)
                      overview_read_accesses)
                   known))"

definition get_overview_read_accesses :: "accesses \<Rightarrow> error + (int \<times> overview_row) list" where
  "get_overview_read_accesses read_accesses =
     (case overview_loop (sorted_items read_accesses) [] [] of
        Inl e \<Rightarrow> Inl e
      | Inr (overview_read_accesses, known_types) \<Rightarrow> Inr overview_read_accesses)"

text \<open>
  The row an access opens, and a row widened by an access: the two dictionaries the loop
  writes into \<^verbatim>\<open>overview_read_accesses\<close>.
\<close>

definition opened :: "access \<Rightarrow> overview_row" where
  "opened vals = \<lparr>row_values = vals, lowest_access = address vals,
                   highest_access = address vals + size_a vals\<rparr>"

definition widened :: "overview_row \<Rightarrow> access \<Rightarrow> overview_row" where
  "widened row vals = row\<lparr>lowest_access := min (lowest_access row) (address vals),
                            highest_access := max (highest_access row) (address vals + size_a vals)\<rparr>"

text \<open>Every start time kept in \<^verbatim>\<open>known_types\<close> is a key of the rows.\<close>

definition known_in :: "(int \<times> overview_row) list \<Rightarrow> ((region_type option \<times> bool) \<times> int) list \<Rightarrow> bool" where
  "known_in ov kn =
     list_all (\<lambda>(p, k0). map_of kn p = Some k0 \<longrightarrow> map_of ov k0 \<noteq> None) kn"

text \<open>
  The annotation loop of \<^verbatim>\<open>PSPTrace.__init__\<close>: every access of size \<^verbatim>\<open>0x40\<close> gets the
  tag \<^verbatim>\<open>CCP\<close>.
\<close>

definition annotate_ccp :: "accesses \<Rightarrow> accesses" where
  "annotate_ccp read_accesses =
     map (\<lambda>(k, v). (k, if size_a v = 0x40 then v\<lparr>info := info v @ [''CCP'']\<rparr> else v))
         read_accesses"

section \<open>Records used in the examples\<close>

text \<open>
  An access as the single-line decoder stores it (no tags, no duplicate count), given by
  its index, start and end time, latency, address, size and type.
\<close>

definition example_access ::
  "int \<Rightarrow> int \<Rightarrow> int \<Rightarrow> int \<Rightarrow> int \<Rightarrow> int \<Rightarrow> region_type option \<Rightarrow> access" where
  "example_access i t e l a s ty =
     \<lparr>instr_index = i, start_time = t, end_time = e, duration = e - t, latency = l,
      address = a, size_a = s, type_a = ty, info = [], duplicate_count = None,
      last_end_time = None\<rparr>"

text \<open>
  The multiplicity a record carries, and the record with its note, as the second loop of
  \<^verbatim>\<open>aggregate_duplicates\<close> leaves it.
\<close>

definition multiplicity :: "access \<Rightarrow> int" where
  "multiplicity v = (case duplicate_count v of None \<Rightarrow> 0 | Some c \<Rightarrow> c)"

definition with_note :: "int \<times> access \<Rightarrow> int \<times> access" where
  "with_note p = (fst p, (snd p)\<lparr>info := info (snd p) @ [CHR ''x'' # fmt_d (multiplicity (snd p))]\<rparr>)"

text \<open>
  The survivors of a run of accesses to one address, in closed form: the first access
  survives and counts itself and up to seven that follow; the ninth access of the run is
  dropped without being counted, and the tenth starts the next survivor.
\<close>

function run_originals :: "accesses \<Rightarrow> accesses" where
  "run_originals [] = []"
| "run_originals ((k, v) # rest) =
     (k, v\<lparr>duplicate_count := Some (min MAXIMUM_AGGREGATION_COUNT (1 + int (length rest)))\<rparr>)
       # run_originals (drop 8 rest)"
  by pat_completeness auto
termination
  by (relation "measure length") auto

text \<open>Accesses to the address 0x100 that start at the given times.\<close>

definition run_example :: "int list \<Rightarrow> accesses" where
  "run_example ks = map (\<lambda>k. (k, example_access (k div 10) k (k + 5) 5 0x100 4 None)) ks"

text \<open>
  \<open>same_head r r'\<close>: the record \<open>r'\<close> was opened by the access \<open>r\<close>; it has the
  index, start time, latency, address and type of \<open>r\<close>, which no merge changes.
\<close>

definition same_head :: "access \<Rightarrow> access \<Rightarrow> bool" where
  "same_head r r' = (instr_index r' = instr_index r \<and> start_time r' = start_time r
      \<and> latency r' = latency r \<and> address r' = address r \<and> type_a r' = type_a r)"

section \<open>Timestamp normalization is idempotent\<close>

lemma shifted_min:
  fixes xs :: "int list"
  assumes "xs \<noteq> []"
  shows "Min (set (map (\<lambda>x. x - Min (set xs)) xs)) = 0"
proof -
  have "mono (\<lambda>x::int. x - Min (set xs))" by (simp add: mono_def)
  then have "(\<lambda>x. x - Min (set xs)) (Min (set xs)) = Min ((\<lambda>x. x - Min (set xs)) ` set xs)"
    using assms by (intro mono_Min_commute) auto
  then show ?thesis by simp
qed

text \<open>
  Claim C7. For every non-empty access collection, normalizing returns a collection
  \<open>once\<close>; normalizing \<open>once\<close> again returns \<open>once\<close> itself; the minimum start time of
  \<open>once\<close> is zero; and every record keeps its key, its duration and its latency.
\<close>

theorem normalize_idempotent:
  assumes "read_accesses \<noteq> []"
  shows "\<exists>once. do_normalize_timestamps read_accesses = Inr once
           \<and> do_normalize_timestamps once = Inr once
           \<and> Min (set (map (\<lambda>(k, v). start_time v) once)) = 0
           \<and> map (\<lambda>(k, v). (k, duration v, latency v)) once
               = map (\<lambda>(k, v). (k, duration v, latency v)) read_accesses"
proof -
  define m where "m = Min (set (map (\<lambda>(k, v). start_time v) read_accesses))"
  define once where
    "once = map (\<lambda>(k, v). (k, v\<lparr>start_time := start_time v - m, end_time := end_time v - m\<rparr>))
                read_accesses"
  have first: "do_normalize_timestamps read_accesses = Inr once"
    using assms by (simp add: do_normalize_timestamps_def once_def m_def)
  have starts: "map (\<lambda>(k, v). start_time v) once
                  = map (\<lambda>x. x - m) (map (\<lambda>(k, v). start_time v) read_accesses)"
    by (simp add: once_def case_prod_unfold)
  have "map (\<lambda>(k, v). start_time v) read_accesses \<noteq> []" using assms by simp
  from shifted_min[OF this] have zero: "Min (set (map (\<lambda>(k, v). start_time v) once)) = 0"
    unfolding starts m_def .
  have ne: "once \<noteq> []" using assms by (simp add: once_def)
  have "map (\<lambda>(k, v). (k, v\<lparr>start_time := start_time v - 0, end_time := end_time v - 0\<rparr>)) once = once"
    by (induction once) auto
  with ne zero have second: "do_normalize_timestamps once = Inr once"
    by (simp add: do_normalize_timestamps_def)
  have keep: "map (\<lambda>(k, v). (k, duration v, latency v)) once
               = map (\<lambda>(k, v). (k, duration v, latency v)) read_accesses"
    by (simp add: once_def case_prod_unfold)
  from first second zero keep show ?thesis by blast
qed

text \<open>Two accesses starting at 700 ns and 1000 ns: the shift is 700 ns.\<close>

theorem normalize_idempotent_witness:
  "[(700, \<lparr>instr_index = 0, start_time = 700, end_time = 900, duration = 200, latency = 700,
           address = 256, size_a = 4, type_a = None, info = [], duplicate_count = None,
           last_end_time = None\<rparr>),
    (1000, \<lparr>instr_index = 1, start_time = 1000, end_time = 1300, duration = 300, latency = 100,
            address = 512, size_a = 8, type_a = None, info = [], duplicate_count = None,
            last_end_time = None\<rparr>)] \<noteq> []
   \<and> (\<exists>once. do_normalize_timestamps
     [(700, \<lparr>instr_index = 0, start_time = 700, end_time = 900, duration = 200, latency = 700,
             address = 256, size_a = 4, type_a = None, info = [], duplicate_count = None,
             last_end_time = None\<rparr>),
      (1000, \<lparr>instr_index = 1, start_time = 1000, end_time = 1300, duration = 300, latency = 100,
              address = 512, size_a = 8, type_a = None, info = [], duplicate_count = None,
              last_end_time = None\<rparr>)] = Inr once
     \<and> do_normalize_timestamps once = Inr once
     \<and> Min (set (map (\<lambda>(k, v). start_time v) once)) = 0
     \<and> map (\<lambda>(k, v). (k, duration v, latency v)) once = [(700, 200, 700), (1000, 300, 100)])"
  using normalize_idempotent [of
     "[(700, \<lparr>instr_index = 0, start_time = 700, end_time = 900, duration = 200, latency = 700,
             address = 256, size_a = 4, type_a = None, info = [], duplicate_count = None,
             last_end_time = None\<rparr>),
      (1000, \<lparr>instr_index = 1, start_time = 1000, end_time = 1300, duration = 300, latency = 100,
              address = 512, size_a = 8, type_a = None, info = [], duplicate_count = None,
              last_end_time = None\<rparr>)]"]
  by simp

section \<open>Type collapsing\<close>

lemma collapse_loop_append:
  "collapse_loop (xs @ ys) acc la =
     (case collapse_loop xs acc la of Inl e \<Rightarrow> Inl e | Inr (acc', la') \<Rightarrow> collapse_loop ys acc' la')"
proof (induction xs arbitrary: acc la)
  case Nil
  show ?case by simp
next
  case (Cons x xs)
  obtain time vals where x: "x = (time, vals)" by (cases x)
  show ?case unfolding x by (simp add: Let_def Cons.IH)
qed

lemma collapse_loop_total:
  assumes "la \<noteq> None \<longrightarrow> acc \<noteq> []"
  shows "\<exists>acc' la'. collapse_loop xs acc la = Inr (acc', la') \<and> (la' \<noteq> None \<longrightarrow> acc' \<noteq> [])
           \<and> (xs \<noteq> [] \<longrightarrow> la' = as_last (snd (last xs)))"
  using assms
proof (induction xs arbitrary: acc la)
  case Nil
  then show ?case by simp
next
  case (Cons x xs)
  obtain time vals where x: "x = (time, vals)" by (cases x)
  show ?case
  proof (cases "merge_test vals la")
    case True
    then have "la \<noteq> None" by (auto simp: merge_test_def split: option.splits)
    with Cons.prems have ne: "acc \<noteq> []" by simp
    have "as_last vals \<noteq> None \<longrightarrow> butlast acc @ [merged (last acc) vals la] \<noteq> []" by simp
    from Cons.IH[OF this] obtain acc' la' where
      "collapse_loop xs (butlast acc @ [merged (last acc) vals la]) (as_last vals) = Inr (acc', la')"
      "la' \<noteq> None \<longrightarrow> acc' \<noteq> []" "xs \<noteq> [] \<longrightarrow> la' = as_last (snd (last xs))" by blast
    moreover from this have "xs = [] \<Longrightarrow> la' = as_last vals" by simp
    ultimately show ?thesis using True ne unfolding x
      by (cases "xs = []") (auto simp: Let_def as_last_def)
  next
    case False
    have "as_last vals \<noteq> None \<longrightarrow> acc @ [vals] \<noteq> []" by simp
    from Cons.IH[OF this] obtain acc' la' where
      "collapse_loop xs (acc @ [vals]) (as_last vals) = Inr (acc', la')"
      "la' \<noteq> None \<longrightarrow> acc' \<noteq> []" "xs \<noteq> [] \<longrightarrow> la' = as_last (snd (last xs))" by blast
    moreover from this have "xs = [] \<Longrightarrow> la' = as_last vals" by simp
    ultimately show ?thesis using False unfolding x
      by (cases "xs = []") (auto simp: Let_def as_last_def)
  qed
qed

lemma collapse_loop_prefix:
  assumes "collapse_loop (pre @ [(k1, a1)]) [] None = Inr (recs, la)"
  shows "recs \<noteq> []" and "la = as_last a1"
proof -
  have "None \<noteq> None \<longrightarrow> ([]::access list) \<noteq> []" by simp
  from collapse_loop_total[OF this, of "pre @ [(k1, a1)]"] assms
  show "recs \<noteq> []" and "la = as_last a1" by (auto simp: as_last_def)
qed

lemma collapse_loop_keeps:
  assumes "suffix \<noteq> []" "same_head r (hd suffix)" "la \<noteq> None"
  shows "\<exists>suffix' la'. collapse_loop xs (acc @ suffix) la = Inr (acc @ suffix', la')
            \<and> suffix' \<noteq> [] \<and> same_head r (hd suffix')"
  using assms
proof (induction xs arbitrary: suffix la)
  case Nil
  then show ?case by simp
next
  case (Cons x xs)
  obtain time vals where x: "x = (time, vals)" by (cases x)
  show ?case
  proof (cases "merge_test vals la")
    case True
    define suffix1 where "suffix1 = butlast suffix @ [merged (last suffix) vals la]"
    have eq: "butlast (acc @ suffix) @ [merged (last (acc @ suffix)) vals la] = acc @ suffix1"
      using Cons.prems(1) by (simp add: suffix1_def butlast_append)
    have ne: "suffix1 \<noteq> []" by (simp add: suffix1_def)
    have hd1: "same_head r (hd suffix1)"
    proof (cases "butlast suffix = []")
      case True
      with Cons.prems(1) have "suffix = [hd suffix]" by (cases suffix) (auto split: if_splits)
      then have "last suffix = hd suffix" by (metis last.simps)
      with True Cons.prems(2) show ?thesis
        by (simp add: suffix1_def same_head_def merged_def Let_def)
    next
      case False
      then have "hd suffix1 = hd suffix"
        by (cases suffix) (auto simp: suffix1_def split: if_splits)
      with Cons.prems(2) show ?thesis by simp
    qed
    from Cons.IH[OF ne hd1, of "as_last vals"] True Cons.prems(1) eq show ?thesis
      unfolding x by (simp add: Let_def as_last_def)
  next
    case False
    have ne: "suffix @ [vals] \<noteq> []" by simp
    have hd1: "same_head r (hd (suffix @ [vals]))" using Cons.prems(1,2) by simp
    from Cons.IH[OF ne hd1, of "as_last vals"] False show ?thesis
      unfolding x by (simp add: Let_def as_last_def)
  qed
qed

lemma collapse_not_merged:
  assumes "collapse_loop (pre @ [(k1, a1)]) [] None = Inr (recs, la)"
      and "\<not> merge_test a2 (as_last a1)"
  shows "\<exists>rest la'. collapse_loop (pre @ (k1, a1) # (k2, a2) # post) [] None = Inr (recs @ rest, la')
           \<and> rest \<noteq> [] \<and> same_head a2 (hd rest)"
proof -
  from collapse_loop_prefix[OF assms(1)] have la: "la = as_last a1" by simp
  have split: "pre @ (k1, a1) # (k2, a2) # post = (pre @ [(k1, a1)]) @ (k2, a2) # post" by simp
  have "[a2] \<noteq> []" and "same_head a2 (hd [a2])" and "as_last a2 \<noteq> None"
    by (simp_all add: same_head_def as_last_def)
  from collapse_loop_keeps[OF this, of post recs]
  obtain rest la' where "collapse_loop post (recs @ [a2]) (as_last a2) = Inr (recs @ rest, la')"
    "rest \<noteq> []" "same_head a2 (hd rest)" by blast
  with assms la show ?thesis
    unfolding split collapse_loop_append[of "pre @ [(k1, a1)]"]
    by (simp add: Let_def as_last_def)
qed

lemma collapse_merged_step:
  assumes "collapse_loop (pre @ [(k1, a1)]) [] None = Inr (recs, la)"
      and "merge_test a2 (as_last a1)"
  shows "collapse_loop (pre @ [(k1, a1), (k2, a2)]) [] None
           = Inr (butlast recs @ [merged (last recs) a2 (as_last a1)], as_last a2)"
proof -
  from collapse_loop_prefix[OF assms(1)] have la: "la = as_last a1" and ne: "recs \<noteq> []" by simp_all
  have split: "pre @ [(k1, a1), (k2, a2)] = (pre @ [(k1, a1)]) @ [(k2, a2)]" by simp
  from assms la ne show ?thesis
    unfolding split collapse_loop_append[of "pre @ [(k1, a1)]"]
    by (simp add: Let_def as_last_def)
qed

lemma merge_test_as_last:
  "merge_test a2 (as_last a1) \<longleftrightarrow> type_a a2 = type_a a1 \<and> address a2 \<le> address a1 + size_a a1"
  by (simp add: merge_test_def as_last_def)

text \<open>
  Claim C10. The merge test of an access \<open>a2\<close> reads the type, address and size of the
  input access \<open>a1\<close> that precedes it, not the span of the surviving record. Whatever came
  before \<open>a1\<close> and whatever the records \<open>recs\<close> built so far span, an access whose
  address lies beyond \<open>address a1 + size a1\<close> is not merged: the records built so far stay
  as they are and \<open>a2\<close> opens the record that follows them.
\<close>

theorem merge_test_uses_previous_input:
  assumes "collapse_loop (pre @ [(k1, a1)]) [] None = Inr (recs, la)"
      and "address a1 + size_a a1 < address a2"
  shows "\<exists>rest la'. collapse_loop (pre @ (k1, a1) # (k2, a2) # post) [] None = Inr (recs @ rest, la')
           \<and> rest \<noteq> [] \<and> same_head a2 (hd rest)"
proof -
  from assms(2) have "\<not> merge_test a2 (as_last a1)" by (simp add: merge_test_as_last)
  from collapse_not_merged[OF assms(1) this] show ?thesis .
qed

text \<open>
  Three accesses of one type at addresses 0 (100 bytes), 50 (10 bytes) and 80: the first two
  merge into a record that spans 110 bytes from address 0; the third lies inside that span
  but beyond 50 + 10 and stays apart.
\<close>

theorem merge_test_uses_previous_input_witness:
  "collapse_loop ([(0, example_access 0 0 10 0 0 100 None)] @ [(20, example_access 1 20 30 10 50 10 None)]) [] None
     = Inr ([\<lparr>instr_index = 0, start_time = 0, end_time = 30, duration = 20, latency = 0,
              address = 0, size_a = 110, type_a = None, info = [''[c]''], duplicate_count = None,
              last_end_time = None\<rparr>], as_last (example_access 1 20 30 10 50 10 None))
   \<and> address (example_access 1 20 30 10 50 10 None) + size_a (example_access 1 20 30 10 50 10 None)
       < address (example_access 2 40 50 10 80 16 None)
   \<and> address (example_access 2 40 50 10 80 16 None) < 0 + 110
   \<and> (\<exists>rest la'. collapse_loop ([(0, example_access 0 0 10 0 0 100 None)]
          @ (20, example_access 1 20 30 10 50 10 None) # (40, example_access 2 40 50 10 80 16 None) # [])
          [] None
        = Inr ([\<lparr>instr_index = 0, start_time = 0, end_time = 30, duration = 20, latency = 0,
              address = 0, size_a = 110, type_a = None, info = [''[c]''], duplicate_count = None,
              last_end_time = None\<rparr>] @ rest, la')
        \<and> rest \<noteq> [] \<and> same_head (example_access 2 40 50 10 80 16 None) (hd rest))"
proof -
  have h1: "collapse_loop ([(0, example_access 0 0 10 0 0 100 None)] @ [(20, example_access 1 20 30 10 50 10 None)]) [] None
     = Inr ([\<lparr>instr_index = 0, start_time = 0, end_time = 30, duration = 20, latency = 0,
              address = 0, size_a = 110, type_a = None, info = [''[c]''], duplicate_count = None,
              last_end_time = None\<rparr>], as_last (example_access 1 20 30 10 50 10 None))"
    by (simp add: example_access_def merge_test_def merged_def as_last_def Let_def)
  have h2: "address (example_access 1 20 30 10 50 10 None) + size_a (example_access 1 20 30 10 50 10 None)
       < address (example_access 2 40 50 10 80 16 None)"
    by (simp add: example_access_def)
  have h3: "address (example_access 2 40 50 10 80 16 None) < 0 + 110"
    by (simp add: example_access_def)
  from merge_test_uses_previous_input[OF h1 h2, of 40 "[]"] h1 h2 h3 show ?thesis by blast
qed

lemma collapse_pair:
  assumes "k1 < k2" and "type_a a2 = type_a a1" and "address a2 \<le> address a1 + size_a a1"
  shows "collapse_entry_types [(k1, a1), (k2, a2)]
           = Inr [(start_time a1, merged a1 a2 (as_last a1))]"
proof -
  from assms(1) have "sorted_items [(k1, a1), (k2, a2)] = [(k1, a1), (k2, a2)]"
    by (simp add: sorted_items_def)
  moreover from assms(2,3) have "merge_test a2 (as_last a1)" by (simp add: merge_test_as_last)
  ultimately show ?thesis
    by (simp add: collapse_entry_types_def merge_test_def dict_by_start_time_def merged_def Let_def)
qed

text \<open>
  Claim C5, as amended. Let \<open>a1\<close> and \<open>a2\<close> be adjacent in start-time order, after any
  accesses \<open>pre\<close>, and let \<open>recs\<close> be the records built when \<open>a1\<close> has been processed.
  If both have the same type and \<open>address a2 \<le> address a1 + size a1\<close>, then \<open>a2\<close> is
  merged into the last record of \<open>recs\<close>, the one that holds \<open>a1\<close>: its size grows by the
  size of \<open>a2\<close>, its end time becomes that of \<open>a2\<close>, its start time and latency stay. That
  record is \<open>a1\<close> itself when \<open>a1\<close> was not merged into its predecessor; for a collection
  of just \<open>a1\<close> and \<open>a2\<close> the result is one record of size \<open>size a1 + size a2\<close> with the
  start time and latency of \<open>a1\<close> and the end time of \<open>a2\<close>. If the types differ, \<open>a2\<close> is
  not merged, whatever follows.
\<close>

theorem collapse_merges_into_survivor:
  assumes "collapse_loop (pre @ [(k1, a1)]) [] None = Inr (recs, la)"
  shows "(type_a a2 = type_a a1 \<and> address a2 \<le> address a1 + size_a a1 \<longrightarrow>
            (\<exists>r la'. collapse_loop (pre @ [(k1, a1), (k2, a2)]) [] None = Inr (butlast recs @ [r], la')
               \<and> size_a r = size_a (last recs) + size_a a2
               \<and> start_time r = start_time (last recs)
               \<and> latency r = latency (last recs)
               \<and> end_time r = end_time a2))
       \<and> (\<forall>recs0 la0. collapse_loop pre [] None = Inr (recs0, la0) \<and> \<not> merge_test a1 la0
             \<longrightarrow> last recs = a1)
       \<and> (k1 < k2 \<and> type_a a2 = type_a a1 \<and> address a2 \<le> address a1 + size_a a1 \<longrightarrow>
            (\<exists>r. collapse_entry_types [(k1, a1), (k2, a2)] = Inr [(start_time a1, r)]
               \<and> size_a r = size_a a1 + size_a a2
               \<and> start_time r = start_time a1
               \<and> latency r = latency a1
               \<and> end_time r = end_time a2))
       \<and> (type_a a2 \<noteq> type_a a1 \<longrightarrow>
            (\<exists>rest la'. collapse_loop (pre @ (k1, a1) # (k2, a2) # post) [] None = Inr (recs @ rest, la')
               \<and> rest \<noteq> [] \<and> same_head a2 (hd rest)))"
proof (intro conjI impI allI)
  assume "type_a a2 = type_a a1 \<and> address a2 \<le> address a1 + size_a a1"
  then have "merge_test a2 (as_last a1)" by (simp add: merge_test_as_last)
  from collapse_merged_step[OF assms this, of k2]
  show "\<exists>r la'. collapse_loop (pre @ [(k1, a1), (k2, a2)]) [] None = Inr (butlast recs @ [r], la')
               \<and> size_a r = size_a (last recs) + size_a a2
               \<and> start_time r = start_time (last recs)
               \<and> latency r = latency (last recs)
               \<and> end_time r = end_time a2"
    by (simp add: merged_def Let_def)
next
  fix recs0 la0
  assume "collapse_loop pre [] None = Inr (recs0, la0) \<and> \<not> merge_test a1 la0"
  with assms show "last recs = a1"
    by (auto simp: collapse_loop_append Let_def)
next
  assume "k1 < k2 \<and> type_a a2 = type_a a1 \<and> address a2 \<le> address a1 + size_a a1"
  then have "collapse_entry_types [(k1, a1), (k2, a2)]
               = Inr [(start_time a1, merged a1 a2 (as_last a1))]"
    by (simp add: collapse_pair)
  then show "\<exists>r. collapse_entry_types [(k1, a1), (k2, a2)] = Inr [(start_time a1, r)]
               \<and> size_a r = size_a a1 + size_a a2
               \<and> start_time r = start_time a1
               \<and> latency r = latency a1
               \<and> end_time r = end_time a2"
    by (simp add: merged_def Let_def)
next
  assume "type_a a2 \<noteq> type_a a1"
  then have "\<not> merge_test a2 (as_last a1)" by (simp add: merge_test_as_last)
  from collapse_not_merged[OF assms this]
  show "\<exists>rest la'. collapse_loop (pre @ (k1, a1) # (k2, a2) # post) [] None = Inr (recs @ rest, la')
               \<and> rest \<noteq> [] \<and> same_head a2 (hd rest)" .
qed

text \<open>
  Two adjacent accesses of 16 bytes at addresses 0x1000 and 0x1010, both unresolved,
  with no access before them.
\<close>

theorem collapse_merges_into_survivor_witness:
  "collapse_loop ([] @ [(100, example_access 0 100 200 100 0x1000 16 None)]) [] None
     = Inr ([example_access 0 100 200 100 0x1000 16 None],
            as_last (example_access 0 100 200 100 0x1000 16 None))
   \<and> (100::int) < 300
   \<and> type_a (example_access 1 300 400 100 0x1010 16 None)
       = type_a (example_access 0 100 200 100 0x1000 16 None)
   \<and> address (example_access 1 300 400 100 0x1010 16 None)
       \<le> address (example_access 0 100 200 100 0x1000 16 None)
          + size_a (example_access 0 100 200 100 0x1000 16 None)
   \<and> (\<exists>r. collapse_entry_types [(100, example_access 0 100 200 100 0x1000 16 None),
                                   (300, example_access 1 300 400 100 0x1010 16 None)]
              = Inr [(100, r)]
          \<and> size_a r = 32 \<and> start_time r = 100 \<and> latency r = 100 \<and> end_time r = 400)"
proof -
  have h: "collapse_loop ([] @ [(100, example_access 0 100 200 100 0x1000 16 None)]) [] None
     = Inr ([example_access 0 100 200 100 0x1000 16 None],
            as_last (example_access 0 100 200 100 0x1000 16 None))"
    by (simp add: merge_test_def)
  from collapse_merges_into_survivor[OF h, of "example_access 1 300 400 100 0x1010 16 None" 300] h
  show ?thesis by (simp add: example_access_def)
qed

text \<open>
  The claim as stated fails on three contiguous accesses of 16 bytes each: the second and
  the third are adjacent, of the same type and contiguous, yet the record that holds them
  has size 48, not 16 + 16, and the start time 100 of the first access, not 300.
\<close>

theorem collapse_pair_size_counterexample:
  "type_a (example_access 2 500 600 100 0x1020 16 None)
     = type_a (example_access 1 300 400 100 0x1010 16 None)
   \<and> address (example_access 2 500 600 100 0x1020 16 None)
       \<le> address (example_access 1 300 400 100 0x1010 16 None)
          + size_a (example_access 1 300 400 100 0x1010 16 None)
   \<and> collapse_entry_types [(100, example_access 0 100 200 100 0x1000 16 None),
                            (300, example_access 1 300 400 100 0x1010 16 None),
                            (500, example_access 2 500 600 100 0x1020 16 None)]
       = Inr [(100, \<lparr>instr_index = 0, start_time = 100, end_time = 600, duration = 300,
                      latency = 100, address = 0x1000, size_a = 48, type_a = None,
                      info = [''[c]''], duplicate_count = None, last_end_time = None\<rparr>)]
   \<and> size_a (example_access 1 300 400 100 0x1010 16 None)
       + size_a (example_access 2 500 600 100 0x1020 16 None) \<noteq> 48
   \<and> start_time (example_access 1 300 400 100 0x1010 16 None) \<noteq> 100"
  by (simp add: example_access_def collapse_entry_types_def sorted_items_def merge_test_def
        as_last_def merged_def dict_by_start_time_def Let_def)

section \<open>Address classifier\<close>

lemma range_eq_in_range:
  assumes "in_range x k \<or> in_range x k'"
  shows "range_eq k k' \<longleftrightarrow> k = k'"
  using assms by (auto simp: range_eq_def in_range_def)

lemma containing_rd_store:
  "containing x (rd_store k v d)
     = (if in_range x k then AList.update k v (containing x d) else containing x d)"
proof (induction d)
  case Nil
  show ?case by (simp add: containing_def)
next
  case (Cons p d)
  obtain k' v' where p: "p = (k', v')" by (cases p)
  show ?case
  proof (cases "range_eq k k'")
    case True
    show ?thesis
    proof (cases "in_range x k \<or> in_range x k'")
      case True
      with \<open>range_eq k k'\<close> have "k = k'" by (simp add: range_eq_in_range)
      with True \<open>range_eq k k'\<close> show ?thesis unfolding p by (simp add: containing_def)
    next
      case False
      with True show ?thesis unfolding p by (simp add: containing_def)
    qed
  next
    case False
    then have "k \<noteq> k'" by (auto simp: range_eq_def)
    with False Cons.IH show ?thesis unfolding p by (simp add: containing_def)
  qed
qed

lemma containing_rd_build:
  "containing x (rd_build items) = foldl (\<lambda>d (k, v). AList.update k v d) [] (containing x items)"
proof (induction items rule: rev_induct)
  case Nil
  show ?case by (simp add: rd_build_def containing_def)
next
  case (snoc p items)
  obtain k v where p: "p = (k, v)" by (cases p)
  have "rd_build (items @ [p]) = rd_store k v (rd_build items)"
    unfolding p by (simp add: rd_build_def)
  then show ?case using snoc.IH unfolding p
    by (simp add: containing_rd_store) (simp add: containing_def)
qed

lemma foldl_update_head:
  "\<exists>rest. foldl (\<lambda>d (k, v). AList.update k v d) ((k1, v1) # d) items
      = (k1, case map_of (rev items) k1 of None \<Rightarrow> v1 | Some v \<Rightarrow> v) # rest"
proof (induction items rule: rev_induct)
  case Nil
  show ?case by simp
next
  case (snoc p items)
  obtain k v where p: "p = (k, v)" by (cases p)
  from snoc.IH obtain rest where
    "foldl (\<lambda>d (k, v). AList.update k v d) ((k1, v1) # d) items
      = (k1, case map_of (rev items) k1 of None \<Rightarrow> v1 | Some v \<Rightarrow> v) # rest" by blast
  then show ?case unfolding p by simp
qed

lemma getitem_containing:
  "RangeDict_getitem d x = (case containing x d of [] \<Rightarrow> None | (k, v) # _ \<Rightarrow> Some v)"
  by (induction d) (auto simp: containing_def)

lemma find_filter:
  "find P xs = (case filter P xs of [] \<Rightarrow> None | y # _ \<Rightarrow> Some y)"
  by (induction xs) auto

lemma map_of_rev_containing:
  assumes "in_range x k"
  shows "map_of (rev (containing x items)) k = map_of (rev items) k"
  using assms
proof (induction items rule: rev_induct)
  case Nil
  show ?case by (simp add: containing_def)
next
  case (snoc p items)
  obtain k' v' where p: "p = (k', v')" by (cases p)
  from snoc show ?case unfolding p by (auto simp: containing_def)
qed

lemma getitem_rd_build:
  "RangeDict_getitem (rd_build items) x =
     (case find (\<lambda>(k, v). in_range x k) items of
        None \<Rightarrow> None
      | Some (k, v) \<Rightarrow> map_of (rev items) k)"
proof (cases "containing x items")
  case Nil
  then have "find (\<lambda>(k, v). in_range x k) items = None"
    by (simp add: find_filter containing_def)
  moreover from Nil have "containing x (rd_build items) = []"
    by (simp add: containing_rd_build)
  ultimately show ?thesis by (simp add: getitem_containing)
next
  case (Cons p ps)
  obtain k1 v1 where p: "p = (k1, v1)" by (cases p)
  from Cons p have "(k1, v1) \<in> set (containing x items)" by simp
  then have in1: "in_range x k1" by (simp add: containing_def)
  from Cons p have f: "find (\<lambda>(k, v). in_range x k) items = Some (k1, v1)"
    by (simp add: find_filter containing_def)
  from foldl_update_head[of k1 v1 "[]" ps] obtain rest where
    "foldl (\<lambda>d (k, v). AList.update k v d) [(k1, v1)] ps
      = (k1, case map_of (rev ps) k1 of None \<Rightarrow> v1 | Some v \<Rightarrow> v) # rest" by blast
  with Cons p have "containing x (rd_build items)
      = (k1, case map_of (rev ps) k1 of None \<Rightarrow> v1 | Some v \<Rightarrow> v) # rest"
    by (simp add: containing_rd_build)
  then have "RangeDict_getitem (rd_build items) x
      = Some (case map_of (rev ps) k1 of None \<Rightarrow> v1 | Some v \<Rightarrow> v)"
    by (simp add: getitem_containing)
  also have "\<dots> = map_of (rev (containing x items)) k1"
    unfolding Cons p by (simp add: map_add_def split: option.splits)
  also have "\<dots> = map_of (rev items) k1" using in1 by (rule map_of_rev_containing)
  finally show ?thesis using f by simp
qed

lemma map_of_rev_last:
  assumes "i < length xs" and "xs ! i = (k, t)"
      and "\<forall>j. i < j \<and> j < length xs \<longrightarrow> fst (xs ! j) \<noteq> k"
  shows "map_of (rev xs) k = Some t"
  using assms
proof (induction xs rule: rev_induct)
  case Nil
  then show ?case by simp
next
  case (snoc p xs)
  show ?case
  proof (cases "i = length xs")
    case True
    with snoc.prems(2) show ?thesis by simp
  next
    case False
    with snoc.prems(1) have i: "i < length xs" by simp
    with snoc.prems(2) have at: "xs ! i = (k, t)" by (simp add: nth_append)
    from snoc.prems(3)[rule_format, of "length xs"] i
    have "fst ((xs @ [p]) ! length xs) \<noteq> k" by simp
    then have p: "fst p \<noteq> k" by simp
    have "\<forall>j. i < j \<and> j < length xs \<longrightarrow> fst (xs ! j) \<noteq> k"
    proof (intro allI impI)
      fix j assume j: "i < j \<and> j < length xs"
      with snoc.prems(3) have "fst ((xs @ [p]) ! j) \<noteq> k" by simp
      with j show "fst (xs ! j) \<noteq> k" by (simp add: nth_append)
    qed
    from snoc.IH[OF i at this] p show ?thesis by (cases p) simp
  qed
qed

lemma getitem_without_range:
  assumes "\<not> in_range x r"
  shows "RangeDict_getitem (rd_build items) x
           = RangeDict_getitem (rd_build (filter (\<lambda>(k, v). k \<noteq> r) items)) x"
proof -
  have f: "find (\<lambda>(k, v). in_range x k) (filter (\<lambda>(k, v). k \<noteq> r) items)
             = find (\<lambda>(k, v). in_range x k) items"
    using assms by (induction items) auto
  have m: "map_of (rev (filter (\<lambda>(k, v). k \<noteq> r) items)) k = map_of (rev items) k" if "k \<noteq> r" for k
    using that by (induction items rule: rev_induct) auto
  show ?thesis
  proof (cases "find (\<lambda>(k, v). in_range x k) items")
    case None
    with f show ?thesis by (simp add: getitem_rd_build)
  next
    case (Some p)
    obtain k v where p: "p = (k, v)" by (cases p)
    from Some p have "in_range x k" by (auto simp: find_Some_iff)
    with assms have "k \<noteq> r" by auto
    from m[OF this] f Some p show ?thesis by (simp add: getitem_rd_build)
  qed
qed

text \<open>
  Claim C6, as amended. The classifier returns, for an address \<open>x\<close>, the type stored
  under the first registered range that contains \<open>x\<close>, and the type stored under a range
  is the one registered last with that range: a later region with the identical range
  replaces the type and keeps the position. Hence the start of a registered region with
  a non-empty range resolves to that region when no earlier-registered range contains the
  start and no later-registered region has the identical range. The address
  \<open>start + size\<close> never resolves through the region's own range: leaving every region
  with that range out does not change its result. An address in no registered range
  resolves to \<open>None\<close>.
\<close>

theorem classifier_resolution:
  "RangeDict_getitem (rd_build items) x =
     (case find (\<lambda>(k, v). in_range x k) items of
        None \<Rightarrow> None
      | Some (k, v) \<Rightarrow> map_of (rev items) k)
   \<and> (i < length items \<and> items ! i = ((start, stop), t) \<and> start < stop
        \<and> (\<forall>j<i. \<not> in_range start (fst (items ! j)))
        \<and> (\<forall>j. i < j \<and> j < length items \<longrightarrow> fst (items ! j) \<noteq> (start, stop))
       \<longrightarrow> RangeDict_getitem (rd_build items) start = Some t)
   \<and> RangeDict_getitem (rd_build items) stop
       = RangeDict_getitem (rd_build (filter (\<lambda>(k, v). k \<noteq> (start, stop)) items)) stop
   \<and> ((\<forall>(k, v) \<in> set items. \<not> in_range x k) \<longrightarrow> RangeDict_getitem (rd_build items) x = None)"
proof (intro conjI impI)
  show "RangeDict_getitem (rd_build items) x =
     (case find (\<lambda>(k, v). in_range x k) items of
        None \<Rightarrow> None
      | Some (k, v) \<Rightarrow> map_of (rev items) k)"
    by (rule getitem_rd_build)
next
  assume h: "i < length items \<and> items ! i = ((start, stop), t) \<and> start < stop
        \<and> (\<forall>j<i. \<not> in_range start (fst (items ! j)))
        \<and> (\<forall>j. i < j \<and> j < length items \<longrightarrow> fst (items ! j) \<noteq> (start, stop))"
  then have "in_range start (fst (items ! i))" by (simp add: in_range_def)
  with h have "find (\<lambda>(k, v). in_range start k) items = Some ((start, stop), t)"
    unfolding find_Some_iff by (intro exI[of _ i]) (auto simp: case_prod_unfold)
  moreover from h have "map_of (rev items) (start, stop) = Some t"
    by (intro map_of_rev_last[of i]) auto
  ultimately show "RangeDict_getitem (rd_build items) start = Some t"
    by (simp add: getitem_rd_build)
next
  have "\<not> in_range stop (start, stop)" by (simp add: in_range_def)
  then show "RangeDict_getitem (rd_build items) stop
       = RangeDict_getitem (rd_build (filter (\<lambda>(k, v). k \<noteq> (start, stop)) items)) stop"
    by (rule getitem_without_range)
next
  assume "\<forall>(k, v) \<in> set items. \<not> in_range x k"
  then have "find (\<lambda>(k, v). in_range x k) items = None"
    by (auto simp: find_None_iff)
  then show "RangeDict_getitem (rd_build items) x = None"
    by (simp add: getitem_rd_build)
qed

text \<open>
  The layout with the single region of address 0x1000, size 0x100 and type 1: its start
  resolves to type 1, and 0x2000 lies in no range.
\<close>

theorem classifier_resolution_witness:
  "region_items [\<lparr>e_address = 0x1000, buffer_size = 0x100, e_type = 1\<rparr>] []
     = [((0x1000, 0x1100), EntryType 1), ((0x20000, 0x20040), Label ''Firmware Entry Table'')]
   \<and> RangeDict_getitem
        (type_at_address_range [\<lparr>e_address = 0x1000, buffer_size = 0x100, e_type = 1\<rparr>] []) 0x1000
       = Some (EntryType 1)
   \<and> RangeDict_getitem
        (type_at_address_range [\<lparr>e_address = 0x1000, buffer_size = 0x100, e_type = 1\<rparr>] []) 0x2000
       = None"
proof -
  define items :: "(range \<times> region_type) list" where
    "items = [((0x1000, 0x1100), EntryType 1), ((0x20000, 0x20040), Label ''Firmware Entry Table'')]"
  have eq: "region_items [\<lparr>e_address = 0x1000, buffer_size = 0x100, e_type = 1\<rparr>] [] = items"
    by (simp add: region_items_def items_def)
  have h1: "0 < length items \<and> items ! 0 = ((0x1000, 0x1100), EntryType 1) \<and> (0x1000::int) < 0x1100
        \<and> (\<forall>j<0. \<not> in_range 0x1000 (fst (items ! j)))
        \<and> (\<forall>j. 0 < j \<and> j < length items \<longrightarrow> fst (items ! j) \<noteq> (0x1000, 0x1100))"
    by (auto simp: items_def nth_Cons split: nat.splits)
  have h2: "\<forall>(k, v) \<in> set items. \<not> in_range 0x2000 k"
    by (simp add: items_def in_range_def)
  from classifier_resolution[of items "0x2000" 0 "0x1000" "0x1100" "EntryType 1"] h1 h2
  have "RangeDict_getitem (rd_build items) 0x1000 = Some (EntryType 1)"
    and "RangeDict_getitem (rd_build items) 0x2000 = None" by blast+
  with eq show ?thesis by (simp add: type_at_address_range_def items_def)
qed

text \<open>
  The claim as stated fails for a region whose range is registered again later, and for a
  region of size 0. Below, the first region has type 1 and no region is registered before
  it, yet its start 0x1000 resolves to type 2 of the second region; the third region is
  \<open>[0x3000, 0x3000)\<close> and its start resolves to \<open>None\<close>.
\<close>

theorem classifier_later_range_counterexample:
  "region_items [\<lparr>e_address = 0x1000, buffer_size = 0x100, e_type = 1\<rparr>,
                 \<lparr>e_address = 0x1000, buffer_size = 0x100, e_type = 2\<rparr>,
                 \<lparr>e_address = 0x3000, buffer_size = 0, e_type = 7\<rparr>] []
     = [((0x1000, 0x1100), EntryType 1), ((0x1000, 0x1100), EntryType 2),
        ((0x3000, 0x3000), EntryType 7), ((0x20000, 0x20040), Label ''Firmware Entry Table'')]
   \<and> RangeDict_getitem
        (type_at_address_range [\<lparr>e_address = 0x1000, buffer_size = 0x100, e_type = 1\<rparr>,
                                \<lparr>e_address = 0x1000, buffer_size = 0x100, e_type = 2\<rparr>,
                                \<lparr>e_address = 0x3000, buffer_size = 0, e_type = 7\<rparr>] []) 0x1000
       = Some (EntryType 2)
   \<and> RangeDict_getitem
        (type_at_address_range [\<lparr>e_address = 0x1000, buffer_size = 0x100, e_type = 1\<rparr>,
                                \<lparr>e_address = 0x1000, buffer_size = 0x100, e_type = 2\<rparr>,
                                \<lparr>e_address = 0x3000, buffer_size = 0, e_type = 7\<rparr>] []) 0x3000
       = None"
  by (simp add: region_items_def type_at_address_range_def rd_build_def range_eq_def in_range_def)

section \<open>Single-line decoder\<close>

lemma count_loop_stop:
  assumes "base_addr + d \<le> n" and "n < length s" and "is_instruction (s ! n)"
      and "\<forall>i. base_addr + d \<le> i \<and> i < n \<longrightarrow> \<not> is_instruction (s ! i)"
  shows "count_loop base_addr s d = n - base_addr"
  using assms
proof (induction "n - (base_addr + d)" arbitrary: d)
  case 0
  then have "base_addr + d = n" by simp
  with 0 show ?case by (subst count_loop.simps) auto
next
  case (Suc m)
  then have lt: "base_addr + d < n" by simp
  with Suc.prems have no: "\<not> is_instruction (s ! (base_addr + d))" by simp
  have "count_loop base_addr s (d + 1) = n - base_addr"
  proof (rule Suc.hyps(1))
    show "m = n - (base_addr + (d + 1))" using Suc.hyps(2) by simp
    show "base_addr + (d + 1) \<le> n" using lt by simp
    show "n < length s" by fact
    show "is_instruction (s ! n)" by fact
    show "\<forall>i. base_addr + (d + 1) \<le> i \<and> i < n \<longrightarrow> \<not> is_instruction (s ! i)"
      using Suc.prems(4) by simp
  qed
  with lt no Suc.prems(2) show ?case by (subst count_loop.simps) simp
qed

lemma count_loop_le: "count_loop base_addr s d \<le> max d (length s - base_addr)"
proof (induction base_addr s d rule: count_loop.induct)
  case (1 base_addr s d)
  show ?case
  proof (cases "base_addr + d < length s \<and> \<not> is_instruction (s ! (base_addr + d))")
    case True
    with 1 have "count_loop base_addr s (d + 1) \<le> max (d + 1) (length s - base_addr)" by simp
    moreover from True have "max (d + 1) (length s - base_addr) = length s - base_addr"
      and "max d (length s - base_addr) = length s - base_addr" by arith+
    moreover from True have "count_loop base_addr s d = count_loop base_addr s (d + 1)"
      by (subst count_loop.simps) simp
    ultimately show ?thesis by simp
  next
    case False
    then have "count_loop base_addr s d = d" by (subst count_loop.simps) auto
    then show ?thesis by simp
  qed
qed

lemma data_instruction_sizes:
  "list_all (\<lambda>(k, ins). expects_data ins \<longrightarrow> size_i ins \<le> 5) WINBOND_INSTRUCTIONS"
  unfolding WINBOND_INSTRUCTIONS_def by simp

lemma size_i_data:
  assumes "map_of WINBOND_INSTRUCTIONS b = Some ins" and "expects_data ins"
  shows "size_i ins \<le> 5"
proof -
  from assms(1) have "(b, ins) \<in> set WINBOND_INSTRUCTIONS" by (rule map_of_SomeD)
  with data_instruction_sizes assms(2) show ?thesis by (auto simp: list_all_iff)
qed

lemma read_instructions:
  "map_of WINBOND_INSTRUCTIONS 0x03 = Some \<lparr>name = ''Read Data'', size_i = 4, expects_data = True\<rparr>"
  "map_of WINBOND_INSTRUCTIONS 0x0B = Some \<lparr>name = ''Fast Read'', size_i = 5, expects_data = True\<rparr>"
  unfolding WINBOND_INSTRUCTIONS_def by simp_all

lemma mosi_step_consumed:
  assumes "mosi_step type_at time mosi st = Inr st'"
  shows "st_index st' = st_index st + consumed mosi (st_index st)"
    and "st_instr_index st' = st_instr_index st + 1"
proof -
  have "st_index st' = st_index st + consumed mosi (st_index st)
        \<and> st_instr_index st' = st_instr_index st + 1"
  proof (cases "map_of WINBOND_INSTRUCTIONS (mosi ! st_index st)")
    case None
    with assms read_instructions show ?thesis
      by (auto simp: mosi_step_def consumed_def Let_def split: if_splits)
  next
    case (Some ins)
    with assms read_instructions show ?thesis
      by (auto simp: mosi_step_def consumed_def Let_def split: if_splits sum.splits)
  qed
  then show "st_index st' = st_index st + consumed mosi (st_index st)"
    and "st_instr_index st' = st_instr_index st + 1" by simp_all
qed

lemma mosi_loop_consumed:
  assumes "mosi_loop type_at time mosi st = Inr st'"
  shows "st_index st' = st_index st + sum_list (decoded_lengths mosi (st_index st))
         \<and> st_instr_index st' = st_instr_index st + length (decoded_lengths mosi (st_index st))"
  using assms
proof (induction type_at time mosi st rule: mosi_loop.induct)
  case (1 type_at time mosi st)
  show ?case
  proof (cases "st_index st < length mosi")
    case False
    with "1.prems" have "st' = st" by (subst (asm) mosi_loop.simps) simp
    with False show ?thesis by (subst (1 2) decoded_lengths.simps) simp
  next
    case True
    with "1.prems" obtain st1 where
      step: "mosi_step type_at time mosi st = Inr st1" and
      rest: "mosi_loop type_at time mosi st1 = Inr st'"
      by (subst (asm) mosi_loop.simps) (auto split: sum.splits)
    from "1.IH"[OF True step rest] mosi_step_consumed[OF step] True
    show ?thesis by (subst (1 2) decoded_lengths.simps) simp
  qed
qed

lemma consumed_bound:
  assumes "index < length mosi"
  shows "index + consumed mosi index \<le> length mosi + 5"
proof (cases "map_of WINBOND_INSTRUCTIONS (mosi ! index)")
  case None
  with assms show ?thesis by (simp add: consumed_def)
next
  case (Some ins)
  show ?thesis
  proof (cases "expects_data ins")
    case False
    with Some size_i_bounds(2)[OF Some] assms show ?thesis by (simp add: consumed_def)
  next
    case True
    from size_i_data[OF Some True] have s5: "size_i ins \<le> 5" .
    have "count_data_bytes (index + size_i ins) mosi \<le> max 1 (length mosi - (index + size_i ins))"
      unfolding count_data_bytes_def by (rule count_loop_le)
    with s5 assms Some True show ?thesis by (simp add: consumed_def max_def split: if_splits)
  qed
qed

lemma decoded_lengths_bounds:
  "length mosi \<le> index + sum_list (decoded_lengths mosi index)
   \<and> (index \<le> length mosi + 5 \<longrightarrow> index + sum_list (decoded_lengths mosi index) \<le> length mosi + 5)"
proof (induction mosi index rule: decoded_lengths.induct)
  case (1 mosi index)
  show ?case
  proof (cases "index < length mosi")
    case False
    then show ?thesis by (subst (1 2) decoded_lengths.simps) simp
  next
    case True
    from consumed_bound[OF True] "1.IH"[OF True] True
    show ?thesis by (subst (1 2) decoded_lengths.simps) (simp add: add.assoc)
  qed
qed

lemma nonread_step:
  assumes "mosi ! st_index st \<noteq> 0x03" and "mosi ! st_index st \<noteq> 0x0B"
  shows "\<exists>st'. mosi_step type_at time mosi st = Inr st'
            \<and> st_read_accesses st' = st_read_accesses st"
  using assms by (auto simp: mosi_step_def Let_def split: option.splits)

text \<open>
  Claim C2, as amended. A single-line capture of exactly 20 samples whose sample 0 is the
  opcode 0x03, whose samples 1 to 3 are the address bytes 0x00 0x01 0x00, whose samples 4
  to 18 are no opcode bytes, and whose sample 19 is an opcode byte other than 0x03 and
  0x0B, decodes to exactly one access, with address 0x000100, size 15 and index 0.
\<close>

theorem twenty_sample_read:
  assumes len: "length mosi = 20" "length time = 20"
      and head: "mosi ! 0 = 0x03" "mosi ! 1 = 0x00" "mosi ! 2 = 0x01" "mosi ! 3 = 0x00"
      and data: "\<forall>i. 4 \<le> i \<and> i < 19 \<longrightarrow> \<not> is_instruction (mosi ! i)"
      and final: "is_instruction (mosi ! 19)" "mosi ! 19 \<noteq> 0x03" "mosi ! 19 \<noteq> 0x0B"
  shows "find_read_accesses_mosi type_at time mosi
           = Inr [(time ! 0,
                   \<lparr>instr_index = 0, start_time = time ! 0, end_time = time ! 15,
                    duration = time ! 15 - time ! 0, latency = time ! 0,
                    address = 0x000100, size_a = 15,
                    type_a = RangeDict_getitem type_at 0x000100, info = [],
                    duplicate_count = None, last_end_time = None\<rparr>)]"
proof -
  define st0 :: decoder_state where
    "st0 = \<lparr>st_index = 0, st_last_end_time = 0, st_end_time = time ! 0, st_instr_index = 0,
            st_read_accesses = []\<rparr>"
  define rec where
    "rec = \<lparr>instr_index = 0, start_time = time ! 0, end_time = time ! 15,
            duration = time ! 15 - time ! 0, latency = time ! 0,
            address = 0x000100, size_a = 15,
            type_a = RangeDict_getitem type_at 0x000100, info = [],
            duplicate_count = None, last_end_time = None\<rparr>"
  define st1 :: decoder_state where
    "st1 = \<lparr>st_index = 19, st_last_end_time = time ! 15, st_end_time = time ! 15,
            st_instr_index = 1, st_read_accesses = [(time ! 0, rec)]\<rparr>"
  have "count_loop 4 mosi 1 = 19 - 4"
    using len final(1) data by (intro count_loop_stop) auto
  then have cnt: "count_data_bytes 4 mosi = 15" by (simp add: count_data_bytes_def)
  have "drop 1 mosi = mosi ! 1 # drop 2 mosi" "drop 2 mosi = mosi ! 2 # drop 3 mosi"
    "drop 3 mosi = mosi ! 3 # drop 4 mosi"
    using len Cons_nth_drop_Suc[of 1 mosi] Cons_nth_drop_Suc[of 2 mosi] Cons_nth_drop_Suc[of 3 mosi]
    by (simp_all add: numeral_2_eq_2 numeral_3_eq_3 eval_nat_numeral)
  with head have bytes: "take 3 (drop 1 mosi) = [0x00, 0x01, 0x00]"
    by (simp add: numeral_3_eq_3)
  have t0: "py_get time 0 = Inr (time ! 0)" and t15: "py_get time 15 = Inr (time ! 15)"
    using len by (simp_all add: py_get_def)
  have step1: "mosi_step type_at time mosi st0 = Inr st1"
    using head(1) cnt bytes t0 t15
    by (simp add: mosi_step_def st0_def st1_def rec_def read_instructions Let_def py_bytes_def
          from_bytes_big_def)
  have "mosi ! st_index st1 \<noteq> 0x03" "mosi ! st_index st1 \<noteq> 0x0B"
    using final by (simp_all add: st1_def)
  from nonread_step[OF this, of type_at time] obtain st2 where
    step2: "mosi_step type_at time mosi st1 = Inr st2" and
    same: "st_read_accesses st2 = st_read_accesses st1" by blast
  from mosi_step_index[OF step2] have "\<not> st_index st2 < length mosi"
    using len by (simp add: st1_def)
  then have "mosi_loop type_at time mosi st2 = Inr st2"
    by (subst mosi_loop.simps) simp
  with step2 len have "mosi_loop type_at time mosi st1 = Inr st2"
    by (subst mosi_loop.simps) (simp add: st1_def)
  with step1 len have "mosi_loop type_at time mosi st0 = Inr st2"
    by (subst mosi_loop.simps) (simp add: st0_def)
  with t0 same show ?thesis
    by (simp add: find_read_accesses_mosi_def mosi_run_def st0_def st1_def rec_def)
qed

text \<open>The capture with 0xFF in samples 4 to 18 and Write Enable (0x06) in sample 19.\<close>

theorem twenty_sample_read_witness:
  "find_read_accesses_mosi [] (map int [0..<20]) ([0x03, 0x00, 0x01, 0x00] @ replicate 15 0xFF @ [0x06])
     = Inr [(0, \<lparr>instr_index = 0, start_time = 0, end_time = 15, duration = 15, latency = 0,
                 address = 0x000100, size_a = 15, type_a = None, info = [],
                 duplicate_count = None, last_end_time = None\<rparr>)]"
proof -
  define mosi :: "int list" where "mosi = [0x03, 0x00, 0x01, 0x00] @ replicate 15 0xFF @ [0x06]"
  have no: "\<not> is_instruction 0xFF" and yes: "is_instruction 0x06"
    by (simp_all add: is_instruction_def WINBOND_INSTRUCTIONS_def)
  have len: "length mosi = 20" "length (map int [0..<20]) = 20" by (simp_all add: mosi_def)
  have head: "mosi ! 0 = 0x03" "mosi ! 1 = 0x00" "mosi ! 2 = 0x01" "mosi ! 3 = 0x00"
    by (simp_all add: mosi_def)
  have data: "\<forall>i. 4 \<le> i \<and> i < 19 \<longrightarrow> \<not> is_instruction (mosi ! i)"
    using no by (auto simp: mosi_def nth_append nth_Cons')
  have final: "is_instruction (mosi ! 19)" "mosi ! 19 \<noteq> 0x03" "mosi ! 19 \<noteq> 0x0B"
    using yes by (simp_all add: mosi_def nth_append)
  from twenty_sample_read[OF len head data final, of "[]"] show ?thesis
    by (simp add: mosi_def)
qed

text \<open>
  The claim as stated says nothing of sample 19. When it is no opcode byte the data count
  runs to the end of the capture and the size is 16; when it is the opcode 0x03 a second
  read starts in the last sample and the lookup of its end time raises IndexError.
\<close>

theorem twenty_sample_read_counterexample:
  "find_read_accesses_mosi []
     [0, 1, 2, 3, 4, 5, 6, 7, 8, 9, 10, 11, 12, 13, 14, 15, 16, 17, 18, 19]
     [0x03, 0x00, 0x01, 0x00, 0xFF, 0xFF, 0xFF, 0xFF, 0xFF, 0xFF, 0xFF, 0xFF, 0xFF, 0xFF, 0xFF,
      0xFF, 0xFF, 0xFF, 0xFF, 0xFF]
     = Inr [(0, \<lparr>instr_index = 0, start_time = 0, end_time = 16, duration = 16, latency = 0,
                 address = 0x000100, size_a = 16, type_a = None, info = [],
                 duplicate_count = None, last_end_time = None\<rparr>)]
   \<and> find_read_accesses_mosi []
     [0, 1, 2, 3, 4, 5, 6, 7, 8, 9, 10, 11, 12, 13, 14, 15, 16, 17, 18, 19]
     [0x03, 0x00, 0x01, 0x00, 0xFF, 0xFF, 0xFF, 0xFF, 0xFF, 0xFF, 0xFF, 0xFF, 0xFF, 0xFF, 0xFF,
      0xFF, 0xFF, 0xFF, 0xFF, 0x03]
     = Inl IndexError"
  by code_simp

text \<open>
  Claim C4 does not hold of the code. The end time of a read is looked up at position
  cursor + data length, without the frame length, although the same block counts the data
  from cursor + frame length on and advances the cursor by frame length + data length.
  For a Read Data at cursor 0 with two data bytes the claim gives the timestamp 60 of
  sample 6 and the code stores 20, that of sample 2; for a Fast Read with one data byte
  the claim gives the timestamp 60 of sample 6 and the code stores 10, the timestamp of
  the first address byte.
\<close>

theorem read_end_time_inside_frame:
  "find_read_accesses_mosi [] [0, 10, 20, 30, 40, 50, 60] [0x03, 0x00, 0x01, 0x00, 0xFF, 0xFF, 0x06]
     = Inr [(0, \<lparr>instr_index = 0, start_time = 0, end_time = 20, duration = 20, latency = 0,
                 address = 0x100, size_a = 2, type_a = None, info = [], duplicate_count = None,
                 last_end_time = None\<rparr>)]
   \<and> [0, 10, 20, 30, 40, 50, 60] ! (0 + 4 + 2) = (60::int)
   \<and> find_read_accesses_mosi [] [0, 10, 20, 30, 40, 50, 60] [0x0B, 0x00, 0x01, 0x00, 0xFF, 0xFF, 0x06]
     = Inr [(0, \<lparr>instr_index = 0, start_time = 0, end_time = 10, duration = 10, latency = 0,
                 address = 0x100, size_a = 1, type_a = None, info = [], duplicate_count = None,
                 last_end_time = None\<rparr>)]
   \<and> [0, 10, 20, 30, 40, 50, 60] ! (0 + 5 + 1) = (60::int)"
  by code_simp

text \<open>
  Claim C8, as amended. The instructions decoded from a single-line capture consume
  contiguous runs of samples from sample 0 on, and the sum of their consumed counts is
  at least the number of samples and at most five more: the last instruction may reach
  past the end of the capture, since its frame length comes from the table and at least
  one data byte is counted. When the decoder returns, that sum is its final cursor and
  the number of decoded instructions is its final instruction index.
\<close>

theorem consumed_samples_cover:
  "length mosi \<le> sum_list (decoded_lengths mosi 0)
   \<and> sum_list (decoded_lengths mosi 0) \<le> length mosi + 5
   \<and> (mosi_run type_at time mosi = Inr st \<longrightarrow>
        st_index st = sum_list (decoded_lengths mosi 0)
        \<and> st_instr_index st = length (decoded_lengths mosi 0))"
proof (intro conjI impI)
  from decoded_lengths_bounds[of mosi 0]
  show "length mosi \<le> sum_list (decoded_lengths mosi 0)"
    and "sum_list (decoded_lengths mosi 0) \<le> length mosi + 5" by simp_all
next
  assume run: "mosi_run type_at time mosi = Inr st"
  then obtain e where
    "mosi_loop type_at time mosi
       \<lparr>st_index = 0, st_last_end_time = 0, st_end_time = e, st_instr_index = 0,
        st_read_accesses = []\<rparr> = Inr st"
    by (auto simp: mosi_run_def split: sum.splits)
  from mosi_loop_consumed[OF this]
  show "st_index st = sum_list (decoded_lengths mosi 0)"
    and "st_instr_index st = length (decoded_lengths mosi 0)" by simp_all
qed

text \<open>
  Write Enable, Read Status Register-1 with three counted bytes up to Write Disable: the
  three instructions consume 1 + 3 + 1 = 5 samples.
\<close>

theorem consumed_samples_cover_witness:
  "mosi_run [] [0, 10, 20, 30, 40] [0x06, 0x05, 0xFF, 0xFF, 0x04]
     = Inr \<lparr>st_index = 5, st_last_end_time = 0, st_end_time = 0, st_instr_index = 3,
            st_read_accesses = []\<rparr>
   \<and> sum_list (decoded_lengths [0x06, 0x05, 0xFF, 0xFF, 0x04] 0) = 5
   \<and> length (decoded_lengths [0x06, 0x05, 0xFF, 0xFF, 0x04] 0) = 3"
proof -
  have run: "mosi_run [] [0, 10, 20, 30, 40] [0x06, 0x05, 0xFF, 0xFF, 0x04]
     = Inr \<lparr>st_index = 5, st_last_end_time = 0, st_end_time = 0, st_instr_index = 3,
            st_read_accesses = []\<rparr>"
    by code_simp
  from consumed_samples_cover[of "[0x06, 0x05, 0xFF, 0xFF, 0x04]" "[]" "[0, 10, 20, 30, 40]"
      "\<lparr>st_index = 5, st_last_end_time = 0, st_end_time = 0, st_instr_index = 3,
            st_read_accesses = []\<rparr>"] run
  show ?thesis by simp
qed

text \<open>
  The claim as stated fails on a capture that ends in a Page Program of one byte: the
  table gives Page Program a frame of 6 samples, and the capture has 5.
\<close>

theorem consumed_samples_counterexample:
  "mosi_run [] [0, 10, 20, 30, 40] [0x02, 0x00, 0x10, 0x00, 0xAA]
     = Inr \<lparr>st_index = 6, st_last_end_time = 0, st_end_time = 0, st_instr_index = 1,
            st_read_accesses = []\<rparr>
   \<and> decoded_lengths [0x02, 0x00, 0x10, 0x00, 0xAA] 0 = [6]
   \<and> sum_list (decoded_lengths [0x02, 0x00, 0x10, 0x00, 0xAA] 0)
       \<noteq> length [0x02, 0x00, 0x10, 0x00, 0xAA :: int]"
  by code_simp

section \<open>Degenerate captures\<close>

text \<open>
  Claim C1 does not hold of the code. A quad-I/O capture without a read opcode raises
  KeyError in the block after the loop, which reads the record under \<^verbatim>\<open>last_start_time\<close>
  although none was stored; an empty capture raises IndexError at the first lookup of
  \<^verbatim>\<open>data['time']\<close>; a single-line capture whose last sample is a read opcode raises
  IndexError at the lookup of the end time; and normalizing an empty collection raises
  ValueError.
\<close>

theorem decoder_raises_on_degenerate_captures:
  "find_read_accesses (Value [0, 1000] [0x00, 0x00]) [] [] = Inl KeyError
   \<and> find_read_accesses (Mosi [] []) [] [] = Inl IndexError
   \<and> find_read_accesses (Value [] []) [] [] = Inl IndexError
   \<and> find_read_accesses (Mosi [0, 1000] [0x06, 0x03]) [] [] = Inl IndexError
   \<and> do_normalize_timestamps [] = Inl ValueError"
  by code_simp

section \<open>Duplicate aggregation\<close>

lemma map_of_mid:
  assumes "k \<notin> fst ` set pre"
  shows "map_of (pre @ (k, w) # rest) k = Some w"
  using assms by (induction pre) auto

lemma update_mid:
  assumes "k \<notin> fst ` set pre"
  shows "AList.update k w' (pre @ (k, w) # rest) = pre @ (k, w') # rest"
  using assms by (induction pre) auto

lemma delete_mid:
  assumes "k \<notin> fst ` set pre" and "k \<notin> fst ` set rest"
  shows "AList.delete k (pre @ (k, w) # rest) = pre @ rest"
  using assms by (induction pre) (auto simp: delete_id)

lemma aggregate_loop_run:
  fixes a :: int
  assumes "\<forall>(k, v) \<in> set rest. address v = a"
  shows "(distinct (map fst pre @ k0 # map fst rest) \<and> duplicate_count w = Some (int c)
            \<and> 1 \<le> c \<and> c \<le> 8 \<longrightarrow>
          aggregate_loop rest (pre @ (k0, w) # rest) [a] [k0]
            = Inr (pre @ (k0, w\<lparr>duplicate_count := Some (min 8 (int c + int (length rest)))\<rparr>)
                     # run_originals (drop (9 - c) rest)))
       \<and> (distinct (map fst pre @ map fst rest) \<longrightarrow>
          aggregate_loop rest (pre @ rest) [] [] = Inr (pre @ run_originals rest))"
  using assms
proof (induction rest arbitrary: pre k0 w c)
  case Nil
  have "w\<lparr>duplicate_count := Some (min 8 (int c))\<rparr> = w"
    if "duplicate_count w = Some (int c)" "c \<le> 8"
    using that by (simp add: min_def)
  then show ?case by auto
next
  case (Cons x xs)
  obtain kx vx where x: "x = (kx, vx)" by (cases x)
  from Cons.prems x have ax: "address vx = a" and axs: "\<forall>(k, v) \<in> set xs. address v = a"
    by auto
  note IH = Cons.IH[OF axs]
  show ?case
  proof (intro conjI impI)
    assume h: "distinct (map fst pre @ k0 # map fst (x # xs)) \<and> duplicate_count w = Some (int c)
            \<and> 1 \<le> c \<and> c \<le> 8"
    then have k0: "k0 \<notin> fst ` set pre" and kx0: "kx \<noteq> k0"
      and kxpre: "\<And>u. kx \<notin> fst ` set (pre @ [(k0, u)])" and kxxs: "kx \<notin> fst ` set xs"
      and d': "distinct (map fst pre @ k0 # map fst xs)"
      and d0: "distinct (map fst (pre @ [(k0, w)]) @ map fst xs)"
      unfolding x by auto
    show "aggregate_loop (x # xs) (pre @ (k0, w) # x # xs) [a] [k0]
            = Inr (pre @ (k0, w\<lparr>duplicate_count := Some (min 8 (int c + int (length (x # xs))))\<rparr>)
                     # run_originals (drop (9 - c) (x # xs)))"
    proof (cases "c < 8")
      case True
      define w' where "w' = w\<lparr>duplicate_count := Some (int c + 1)\<rparr>"
      have upd: "AList.update k0 w' (pre @ (k0, w) # (kx, vx) # xs) = pre @ (k0, w') # (kx, vx) # xs"
        using k0 by (rule update_mid)
      have look: "map_of (pre @ (k0, w') # (kx, vx) # xs) kx = Some vx"
        using map_of_mid[OF kxpre[of w'], of vx xs] by simp
      have del: "AList.delete kx (pre @ (k0, w') # (kx, vx) # xs) = pre @ (k0, w') # xs"
        using delete_mid[OF kxpre[of w'] kxxs, of vx] by simp
      have dcw': "duplicate_count w' = Some (int (c + 1))" by (simp add: w'_def)
      from IH[of pre k0 w' "c + 1"] d' dcw' True h
      have rec: "aggregate_loop xs (pre @ (k0, w') # xs) [a] [k0]
            = Inr (pre @ (k0, w'\<lparr>duplicate_count := Some (min 8 (int (c + 1) + int (length xs)))\<rparr>)
                     # run_originals (drop (9 - (c + 1)) xs))" by simp
      from True have "9 - c = Suc (9 - (c + 1))" by arith
      then have dr: "drop (9 - c) (x # xs) = drop (9 - (c + 1)) xs" by simp
      have step: "aggregate_loop (x # xs) (pre @ (k0, w) # x # xs) [a] [k0]
                    = aggregate_loop xs (pre @ (k0, w') # xs) [a] [k0]"
        unfolding x using ax h True map_of_mid[OF k0, of w "(kx, vx) # xs"] upd look del
        by (simp add: Let_def py_get_def MAXIMUM_AGGREGATION_COUNT_def w'_def)
      show ?thesis unfolding step rec dr by (simp add: w'_def add.commute add.left_commute)
    next
      case False
      with h have c8: "c = 8" by simp
      have look: "map_of (pre @ (k0, w) # (kx, vx) # xs) kx = Some vx"
        using map_of_mid[OF kxpre[of w], of vx xs] by simp
      have del: "AList.delete kx (pre @ (k0, w) # (kx, vx) # xs) = pre @ (k0, w) # xs"
        using delete_mid[OF kxpre[of w] kxxs, of vx] by simp
      from IH[of "pre @ [(k0, w)]"] d0
      have rec: "aggregate_loop xs (pre @ (k0, w) # xs) [] [] = Inr (pre @ (k0, w) # run_originals xs)"
        by simp
      have step: "aggregate_loop (x # xs) (pre @ (k0, w) # x # xs) [a] [k0]
                    = aggregate_loop xs (pre @ (k0, w) # xs) [] []"
        unfolding x using ax h c8 map_of_mid[OF k0, of w "(kx, vx) # xs"] look del
        by (simp add: Let_def py_get_def MAXIMUM_AGGREGATION_COUNT_def del_at_def)
      have "w\<lparr>duplicate_count := Some (min 8 (int c + int (length (x # xs))))\<rparr> = w"
        using h c8 by simp
      then show ?thesis unfolding step rec using c8 by simp
    qed
  next
    assume d: "distinct (map fst pre @ map fst (x # xs))"
    then have kxpre: "kx \<notin> fst ` set pre" and d': "distinct (map fst pre @ kx # map fst xs)"
      unfolding x by auto
    define w where "w = vx\<lparr>duplicate_count := Some 1\<rparr>"
    have dcw: "duplicate_count w = Some (int 1)" by (simp add: w_def)
    from IH[of pre kx w 1] d' dcw
    have rec: "aggregate_loop xs (pre @ (kx, w) # xs) [a] [kx]
            = Inr (pre @ (kx, w\<lparr>duplicate_count := Some (min 8 (int 1 + int (length xs)))\<rparr>)
                     # run_originals (drop (9 - 1) xs))" by simp
    have step: "aggregate_loop (x # xs) (pre @ x # xs) [] []
                  = aggregate_loop xs (pre @ (kx, w) # xs) [a] [kx]"
      unfolding x using ax map_of_mid[OF kxpre, of vx xs] update_mid[OF kxpre, of w vx xs]
      by (simp add: Let_def deque_append_def w_def)
    show "aggregate_loop (x # xs) (pre @ x # xs) [] [] = Inr (pre @ run_originals (x # xs))"
      unfolding step rec by (simp add: x w_def MAXIMUM_AGGREGATION_COUNT_def)
  qed
qed

lemma add_notes_run: "add_notes (run_originals xs) = Inr (map with_note (run_originals xs))"
  by (induction xs rule: run_originals.induct) (simp_all add: with_note_def multiplicity_def)

lemma length_run_originals: "length (run_originals xs) = (length xs + 8) div 9"
proof (induction xs rule: run_originals.induct)
  case 1
  show ?case by simp
next
  case (2 k v rest)
  then show ?case by simp arith
qed

lemma sum_run_originals:
  "sum_list (map (\<lambda>(k, v). multiplicity v) (run_originals xs)) = int (length xs) - int (length xs div 9)"
proof (induction xs rule: run_originals.induct)
  case 1
  show ?case by simp
next
  case (2 k v rest)
  then show ?case
    by (simp add: multiplicity_def MAXIMUM_AGGREGATION_COUNT_def min_def) arith
qed

text \<open>
  Claim C3, as amended. Take a collection of N accesses to one address, in start-time
  order. If N is at most the maximum aggregation count 8, duplicate aggregation returns
  exactly one record, the first access, with multiplicity N and the note \<open>xN\<close>. In general
  every ninth access of the run is dropped without being counted and the access after
  it starts a new original: the survivors are those of \<open>run_originals\<close>, there are
  \<open>(N + 8) div 9\<close> of them, and their multiplicities sum to \<open>N - N div 9\<close>. So a second
  original appears from N = 10 on, and for N above 8 the multiplicities do not count
  every occurrence.
\<close>

theorem aggregate_run:
  assumes "sorted_wrt (<) (map fst xs)" and "\<forall>(k, v) \<in> set xs. address v = a"
  shows "aggregate_duplicates xs = Inr (map with_note (run_originals xs))
         \<and> length (run_originals xs) = (length xs + 8) div 9
         \<and> sum_list (map (\<lambda>(k, v). multiplicity v) (run_originals xs))
             = int (length xs) - int (length xs div 9)
         \<and> (0 < length xs \<and> length xs \<le> 8 \<longrightarrow>
              aggregate_duplicates xs
                = Inr [(fst (hd xs),
                        (snd (hd xs))\<lparr>duplicate_count := Some (int (length xs)),
                                      info := info (snd (hd xs)) @ [CHR ''x'' # fmt_d (int (length xs))]\<rparr>)])"
proof -
  from assms(1) have srt: "sorted (map fst xs)" and dst: "distinct (map fst xs)"
    by (simp_all add: strict_sorted_iff)
  from srt have "sorted_items xs = xs" by (simp add: sorted_items_def sort_key_id_if_sorted)
  moreover from aggregate_loop_run[OF assms(2), of "[]"] dst
  have "aggregate_loop xs xs [] [] = Inr (run_originals xs)" by simp
  ultimately have main: "aggregate_duplicates xs = Inr (map with_note (run_originals xs))"
    by (simp add: aggregate_duplicates_def add_notes_run)
  have short: "aggregate_duplicates xs
                = Inr [(fst (hd xs),
                        (snd (hd xs))\<lparr>duplicate_count := Some (int (length xs)),
                                      info := info (snd (hd xs)) @ [CHR ''x'' # fmt_d (int (length xs))]\<rparr>)]"
    if "0 < length xs \<and> length xs \<le> 8"
  proof -
    from that obtain k v rest where xs: "xs = (k, v) # rest" and "length rest < 8"
      by (cases xs) auto
    then have "min MAXIMUM_AGGREGATION_COUNT (1 + int (length rest)) = 1 + int (length rest)"
      by (simp add: MAXIMUM_AGGREGATION_COUNT_def)
    with xs \<open>length rest < 8\<close> show ?thesis unfolding main
      by (simp add: with_note_def multiplicity_def)
  qed
  from main length_run_originals sum_run_originals short show ?thesis by blast
qed

text \<open>Three accesses to the address 0x100 become one record with the note \<open>x3\<close>.\<close>

theorem aggregate_run_witness:
  "sorted_wrt (<) (map fst (run_example [0, 10, 20]))
   \<and> map (\<lambda>(k, v). address v) (run_example [0, 10, 20]) = [0x100, 0x100, 0x100]
   \<and> aggregate_duplicates (run_example [0, 10, 20])
       = Inr [(0, \<lparr>instr_index = 0, start_time = 0, end_time = 5, duration = 5, latency = 5,
                   address = 0x100, size_a = 4, type_a = None, info = [''x3''],
                   duplicate_count = Some 3, last_end_time = None\<rparr>)]"
proof -
  have h1: "sorted_wrt (<) (map fst (run_example [0, 10, 20]))"
    by (simp add: run_example_def)
  have h2: "\<forall>(k, v) \<in> set (run_example [0, 10, 20]). address v = 0x100"
    by (simp add: run_example_def example_access_def)
  have len: "length (run_example [0, 10, 20]) = 3" by (simp add: run_example_def)
  have f: "fmt_d 3 = ''3''" by (simp add: fmt_d_def dec_nat.simps)
  from aggregate_run[OF h1 h2, THEN conjunct2, THEN conjunct2, THEN conjunct2] len
  have "aggregate_duplicates (run_example [0, 10, 20])
          = Inr [(fst (hd (run_example [0, 10, 20])),
                  (snd (hd (run_example [0, 10, 20])))\<lparr>duplicate_count := Some 3,
                     info := info (snd (hd (run_example [0, 10, 20]))) @ [CHR ''x'' # fmt_d 3]\<rparr>)]"
    by simp
  with h1 h2 f show ?thesis by (simp add: run_example_def example_access_def)
qed

text \<open>
  The claim as stated fails for N = 9 and N = 10: nine accesses leave one record of
  multiplicity 8, and ten accesses leave two records of multiplicities 8 and 1, which
  count nine of the ten occurrences.
\<close>

theorem aggregate_run_counterexample:
  "aggregate_duplicates (run_example [0, 10, 20, 30, 40, 50, 60, 70, 80])
     = Inr [(0, \<lparr>instr_index = 0, start_time = 0, end_time = 5, duration = 5, latency = 5,
                 address = 0x100, size_a = 4, type_a = None, info = [''x8''],
                 duplicate_count = Some 8, last_end_time = None\<rparr>)]
   \<and> aggregate_duplicates (run_example [0, 10, 20, 30, 40, 50, 60, 70, 80, 90])
     = Inr [(0, \<lparr>instr_index = 0, start_time = 0, end_time = 5, duration = 5, latency = 5,
                 address = 0x100, size_a = 4, type_a = None, info = [''x8''],
                 duplicate_count = Some 8, last_end_time = None\<rparr>),
            (90, \<lparr>instr_index = 9, start_time = 90, end_time = 95, duration = 5, latency = 5,
                 address = 0x100, size_a = 4, type_a = None, info = [''x1''],
                 duplicate_count = Some 1, last_end_time = None\<rparr>)]"
  by code_simp

section \<open>Overview reduction\<close>

lemma known_in_iff:
  "known_in ov kn = (\<forall>p k0. map_of kn p = Some k0 \<longrightarrow> map_of ov k0 \<noteq> None)"
proof
  assume h: "known_in ov kn"
  show "\<forall>p k0. map_of kn p = Some k0 \<longrightarrow> map_of ov k0 \<noteq> None"
  proof (intro allI impI)
    fix p k0 assume m: "map_of kn p = Some k0"
    then have "(p, k0) \<in> set kn" by (rule map_of_SomeD)
    with h m show "map_of ov k0 \<noteq> None" by (auto simp: known_in_def list_all_iff)
  qed
next
  assume "\<forall>p k0. map_of kn p = Some k0 \<longrightarrow> map_of ov k0 \<noteq> None"
  then show "known_in ov kn" by (auto simp: known_in_def list_all_iff)
qed

lemma overview_loop_append:
  "overview_loop (xs @ ys) ov kn =
     (case overview_loop xs ov kn of Inl e \<Rightarrow> Inl e | Inr (ov', kn') \<Rightarrow> overview_loop ys ov' kn')"
proof (induction xs arbitrary: ov kn)
  case Nil
  show ?case by simp
next
  case (Cons x xs)
  obtain k v where x: "x = (k, v)" by (cases x)
  show ?case unfolding x by (simp add: Let_def Cons.IH split: option.splits)
qed

lemma overview_step_join:
  assumes "latency v div 1000 \<le> TIME_BLOCK_LATENCY_THRESHOLD"
      and "map_of kn (type_a v, is_ccp v) = Some k0" and "map_of ov k0 = Some row"
  shows "overview_loop [(k, v)] ov kn = Inr (AList.update k0 (widened row v) ov, kn)"
  using assms by (simp add: Let_def widened_def)

lemma overview_step_open_block:
  assumes "TIME_BLOCK_LATENCY_THRESHOLD < latency v div 1000"
  shows "overview_loop [(k, v)] ov kn
           = Inr (AList.update k (opened v) ov, [((type_a v, is_ccp v), k)])"
  using assms by (simp add: Let_def opened_def)

lemma overview_step_open_type:
  assumes "latency v div 1000 \<le> TIME_BLOCK_LATENCY_THRESHOLD"
      and "map_of kn (type_a v, is_ccp v) = None"
  shows "overview_loop [(k, v)] ov kn
           = Inr (AList.update k (opened v) ov, AList.update (type_a v, is_ccp v) k kn)"
  using assms by (simp add: Let_def opened_def)

lemma overview_step_known:
  assumes "known_in ov kn"
  shows "\<exists>ov' kn' k0 row. overview_loop [(k, v)] ov kn = Inr (ov', kn') \<and> known_in ov' kn'
           \<and> map_of kn' (type_a v, is_ccp v) = Some k0 \<and> map_of ov' k0 = Some row
           \<and> lowest_access row \<le> address v \<and> address v + size_a v \<le> highest_access row"
proof (cases "TIME_BLOCK_LATENCY_THRESHOLD < latency v div 1000")
  case True
  have "known_in (AList.update k (opened v) ov) [((type_a v, is_ccp v), k)]"
    by (auto simp: known_in_iff update_conv' split: if_splits)
  with overview_step_open_block[OF True, of k ov kn] show ?thesis
    by (auto simp: update_conv' opened_def)
next
  case False
  then have le: "latency v div 1000 \<le> TIME_BLOCK_LATENCY_THRESHOLD" by simp
  show ?thesis
  proof (cases "map_of kn (type_a v, is_ccp v)")
    case None
    have "known_in (AList.update k (opened v) ov) (AList.update (type_a v, is_ccp v) k kn)"
      using assms by (auto simp: known_in_iff update_conv' split: if_splits)
    with overview_step_open_type[OF le None, of k ov] show ?thesis
      by (auto simp: update_conv' opened_def)
  next
    case (Some k0)
    with assms have "map_of ov k0 \<noteq> None" unfolding known_in_iff by blast
    then obtain row where row: "map_of ov k0 = Some row" by auto
    have "known_in (AList.update k0 (widened row v) ov) kn"
      using assms by (auto simp: known_in_iff update_conv')
    with overview_step_join[OF le Some row, of k] Some show ?thesis
      by (auto simp: update_conv' widened_def)
  qed
qed

lemma overview_loop_total:
  assumes "known_in ov kn"
  shows "\<exists>ov' kn'. overview_loop xs ov kn = Inr (ov', kn') \<and> known_in ov' kn'"
  using assms
proof (induction xs arbitrary: ov kn)
  case Nil
  then show ?case by simp
next
  case (Cons x xs)
  obtain k v where x: "x = (k, v)" by (cases x)
  from overview_step_known[OF Cons.prems, of k v] obtain ov1 kn1 where
    s: "overview_loop [(k, v)] ov kn = Inr (ov1, kn1)" and i: "known_in ov1 kn1" by blast
  from Cons.IH[OF i] obtain ov' kn' where
    "overview_loop xs ov1 kn1 = Inr (ov', kn')" "known_in ov' kn'" by blast
  with s show ?case
    using overview_loop_append[of "[(k, v)]" xs ov kn] unfolding x by simp
qed

lemma overview_after_access:
  assumes "overview_loop (pre @ [(k1, a1)]) [] [] = Inr (ov, kn)"
  shows "\<exists>k0 row. map_of kn (type_a a1, is_ccp a1) = Some k0 \<and> map_of ov k0 = Some row
           \<and> lowest_access row \<le> address a1 \<and> address a1 + size_a a1 \<le> highest_access row"
proof -
  have "known_in [] []" by (simp add: known_in_iff)
  from overview_loop_total[OF this, of pre] obtain ov0 kn0 where
    p: "overview_loop pre [] [] = Inr (ov0, kn0)" and i: "known_in ov0 kn0" by blast
  from overview_step_known[OF i, of k1 a1] p assms show ?thesis
    by (auto simp: overview_loop_append)
qed

lemma overview_step_cases:
  assumes "overview_loop [(k, v)] ov kn = Inr (ov1, kn1)"
  shows "ov1 = AList.update k (opened v) ov
         \<or> (\<exists>k0 row. map_of ov k0 = Some row \<and> ov1 = AList.update k0 (widened row v) ov)"
  using assms by (auto simp: Let_def opened_def widened_def split: option.splits if_splits)

lemma overview_keys:
  assumes "overview_loop xs ov kn = Inr (ov', kn')"
  shows "fst ` set ov' \<subseteq> fst ` set ov \<union> fst ` set xs"
  using assms
proof (induction xs arbitrary: ov kn)
  case Nil
  then show ?case by simp
next
  case (Cons x xs)
  obtain k v where x: "x = (k, v)" by (cases x)
  from Cons.prems obtain ov1 kn1 where
    s: "overview_loop [(k, v)] ov kn = Inr (ov1, kn1)" and r: "overview_loop xs ov1 kn1 = Inr (ov', kn')"
    using overview_loop_append[of "[(k, v)]" xs ov kn] unfolding x
    by (auto split: sum.splits)
  from overview_step_cases[OF s] have "fst ` set ov1 \<subseteq> fst ` set ov \<union> {k}"
  proof
    assume "ov1 = AList.update k (opened v) ov"
    then show ?thesis by (simp add: dom_update)
  next
    assume "\<exists>k0 row. map_of ov k0 = Some row \<and> ov1 = AList.update k0 (widened row v) ov"
    then obtain k0 row where m: "map_of ov k0 = Some row"
      and e: "ov1 = AList.update k0 (widened row v) ov" by blast
    from m have "k0 \<in> fst ` set ov" by (metis map_of_SomeD fst_conv image_eqI)
    with e show ?thesis by (auto simp: dom_update)
  qed
  with Cons.IH[OF r] show ?case unfolding x by auto
qed

lemma overview_loop_widens:
  assumes "overview_loop xs ov kn = Inr (ov', kn')" and "map_of ov k = Some row"
      and "k \<notin> fst ` set xs"
  shows "\<exists>row'. map_of ov' k = Some row' \<and> row_values row' = row_values row
           \<and> lowest_access row' \<le> lowest_access row \<and> highest_access row \<le> highest_access row'"
  using assms
proof (induction xs arbitrary: ov kn row)
  case Nil
  then show ?case by auto
next
  case (Cons x xs)
  obtain k' v where x: "x = (k', v)" by (cases x)
  from Cons.prems(3) have kk: "k \<noteq> k'" and kxs: "k \<notin> fst ` set xs" unfolding x by auto
  from Cons.prems(1) obtain ov1 kn1 where
    s: "overview_loop [(k', v)] ov kn = Inr (ov1, kn1)" and r: "overview_loop xs ov1 kn1 = Inr (ov', kn')"
    using overview_loop_append[of "[(k', v)]" xs ov kn] unfolding x
    by (auto split: sum.splits)
  have "\<exists>row1. map_of ov1 k = Some row1 \<and> row_values row1 = row_values row
          \<and> lowest_access row1 \<le> lowest_access row \<and> highest_access row \<le> highest_access row1"
    using overview_step_cases[OF s]
  proof
    assume "ov1 = AList.update k' (opened v) ov"
    with kk Cons.prems(2) show ?thesis by (simp add: update_conv')
  next
    assume "\<exists>k0 row. map_of ov k0 = Some row \<and> ov1 = AList.update k0 (widened row v) ov"
    then obtain k0 r0 where m: "map_of ov k0 = Some r0"
      and e: "ov1 = AList.update k0 (widened r0 v) ov" by blast
    show ?thesis
    proof (cases "k0 = k")
      case True
      with m Cons.prems(2) have "r0 = row" by simp
      with True e show ?thesis by (simp add: update_conv' widened_def)
    next
      case False
      with e Cons.prems(2) show ?thesis by (simp add: update_conv')
    qed
  qed
  then obtain row1 where m1: "map_of ov1 k = Some row1" and
    b: "row_values row1 = row_values row" "lowest_access row1 \<le> lowest_access row"
       "highest_access row \<le> highest_access row1" by blast
  from Cons.IH[OF r m1 kxs] b show ?case by fastforce
qed

lemma threshold_in_ns:
  "(TIME_BLOCK_LATENCY_THRESHOLD < l div 1000) = (51000 \<le> l)"
proof -
  have e: "l = 1000 * (l div 1000) + l mod 1000" by simp
  have b: "0 \<le> l mod 1000" "l mod 1000 < 1000" by simp_all
  show ?thesis
  proof
    assume "TIME_BLOCK_LATENCY_THRESHOLD < l div 1000"
    then have "51 \<le> l div 1000" by (simp add: TIME_BLOCK_LATENCY_THRESHOLD_def)
    with e b show "51000 \<le> l" by linarith
  next
    assume "51000 \<le> l"
    with e b have "50 < l div 1000" by linarith
    then show "TIME_BLOCK_LATENCY_THRESHOLD < l div 1000"
      by (simp add: TIME_BLOCK_LATENCY_THRESHOLD_def)
  qed
qed

lemma overview_pair_final:
  assumes run: "overview_loop (pre @ [(k1, a1)]) [] [] = Inr (ov, kn)"
      and k0: "map_of kn (type_a a1, is_ccp a1) = Some k0" and row: "map_of ov k0 = Some row"
      and cover: "lowest_access row \<le> address a1" "address a1 + size_a a1 \<le> highest_access row"
      and same: "type_a a2 = type_a a1" "is_ccp a2 = is_ccp a1"
      and lat: "latency a2 div 1000 \<le> TIME_BLOCK_LATENCY_THRESHOLD"
      and dist: "distinct (map fst (pre @ (k1, a1) # (k2, a2) # post))"
  shows "\<exists>final kn' row'. overview_loop (pre @ (k1, a1) # (k2, a2) # post) [] [] = Inr (final, kn')
           \<and> map_of final k0 = Some row' \<and> row_values row' = row_values row
           \<and> lowest_access row' \<le> min (address a1) (address a2)
           \<and> max (address a1 + size_a a1) (address a2 + size_a a2) \<le> highest_access row'"
proof -
  have split: "pre @ (k1, a1) # (k2, a2) # post = (pre @ [(k1, a1)]) @ [(k2, a2)] @ post" by simp
  from k0 same have k0': "map_of kn (type_a a2, is_ccp a2) = Some k0" by simp
  note step = overview_step_join[OF lat k0' row, of k2]
  have "known_in [] []" by (simp add: known_in_iff)
  from overview_loop_total[OF this, of "pre @ (k1, a1) # (k2, a2) # post"] obtain final kn' where
    whole: "overview_loop (pre @ (k1, a1) # (k2, a2) # post) [] [] = Inr (final, kn')" by blast
  then have rest: "overview_loop post (AList.update k0 (widened row a2) ov) kn = Inr (final, kn')"
    unfolding split overview_loop_append[of "pre @ [(k1, a1)]"] overview_loop_append[of "[(k2, a2)]"]
    using run step by simp
  from row have "k0 \<in> fst ` set ov" by (metis map_of_SomeD fst_conv image_eqI)
  with overview_keys[OF run] have "k0 \<in> fst ` set (pre @ [(k1, a1)])" by auto
  with dist have notin: "k0 \<notin> fst ` set post" by auto
  have at: "map_of (AList.update k0 (widened row a2) ov) k0 = Some (widened row a2)"
    by (simp add: update_conv')
  from overview_loop_widens[OF rest at notin] obtain row' where
    "map_of final k0 = Some row'" "row_values row' = row_values (widened row a2)"
    "lowest_access row' \<le> lowest_access (widened row a2)"
    "highest_access (widened row a2) \<le> highest_access row'" by blast
  with cover whole show ?thesis by (auto simp: widened_def)
qed

text \<open>
  Claim C9, as amended. The code compares latencies in whole microseconds
  (\<^verbatim>\<open>latency // 1000 > 50\<close>): a new time block starts only from a latency of 51000 ns on,
  and an access with a latency of 50001 to 50999 ns stays in the block. Let \<open>a1\<close> and
  \<open>a2\<close> be adjacent in start-time order, after any accesses \<open>pre\<close>. When \<open>a1\<close> has been
  processed, a row \<open>row\<close> under the key \<open>k0\<close> is known for its type and coprocessor flag
  and covers the span of \<open>a1\<close>. If \<open>a2\<close> has the same type and flag and its latency in
  whole microseconds is at most 50, it opens no row: the row under \<open>k0\<close> is widened by the
  span of \<open>a2\<close>, and whatever follows, the final row under \<open>k0\<close> covers both spans. If the
  latency of \<open>a2\<close> in whole microseconds is above 50, \<open>a2\<close> opens a row of its own with
  its own span, whatever its type. For a collection of just two such accesses the one
  row spans exactly from the lower address to the higher end, and a third access above
  the threshold gives a second row. The annotation of \<^verbatim>\<open>PSPTrace.__init__\<close>, applied to
  accesses that carry no tag \<^verbatim>\<open>CCP\<close> yet, as the decoder emits them, leaves the tag
  exactly on the accesses of size 64.
\<close>

theorem overview_rows:
  assumes run: "overview_loop (pre @ [(k1, a1)]) [] [] = Inr (ov, kn)"
  shows "(\<exists>k0 row. map_of kn (type_a a1, is_ccp a1) = Some k0 \<and> map_of ov k0 = Some row
            \<and> lowest_access row \<le> address a1 \<and> address a1 + size_a a1 \<le> highest_access row
            \<and> (type_a a2 = type_a a1 \<and> is_ccp a2 = is_ccp a1
                 \<and> latency a2 div 1000 \<le> TIME_BLOCK_LATENCY_THRESHOLD \<longrightarrow>
               overview_loop (pre @ [(k1, a1), (k2, a2)]) [] []
                 = Inr (AList.update k0 (widened row a2) ov, kn))
            \<and> (type_a a2 = type_a a1 \<and> is_ccp a2 = is_ccp a1
                 \<and> latency a2 div 1000 \<le> TIME_BLOCK_LATENCY_THRESHOLD
                 \<and> distinct (map fst (pre @ (k1, a1) # (k2, a2) # post)) \<longrightarrow>
               (\<exists>final kn' row'.
                  overview_loop (pre @ (k1, a1) # (k2, a2) # post) [] [] = Inr (final, kn')
                  \<and> map_of final k0 = Some row' \<and> row_values row' = row_values row
                  \<and> lowest_access row' \<le> min (address a1) (address a2)
                  \<and> max (address a1 + size_a a1) (address a2 + size_a a2) \<le> highest_access row')))
         \<and> (TIME_BLOCK_LATENCY_THRESHOLD < latency a2 div 1000 \<longrightarrow>
               overview_loop (pre @ [(k1, a1), (k2, a2)]) [] []
                 = Inr (AList.update k2 (opened a2) ov, [((type_a a2, is_ccp a2), k2)]))
         \<and> (TIME_BLOCK_LATENCY_THRESHOLD < latency a2 div 1000) = (51000 \<le> latency a2)
         \<and> (k1 < k2 \<and> type_a a2 = type_a a1 \<and> is_ccp a2 = is_ccp a1
              \<and> latency a2 div 1000 \<le> TIME_BLOCK_LATENCY_THRESHOLD \<longrightarrow>
             get_overview_read_accesses [(k1, a1), (k2, a2)]
               = Inr [(k1, \<lparr>row_values = a1, lowest_access = min (address a1) (address a2),
                            highest_access = max (address a1 + size_a a1) (address a2 + size_a a2)\<rparr>)])
         \<and> (k1 < k2 \<and> k2 < k3 \<and> type_a a2 = type_a a1 \<and> is_ccp a2 = is_ccp a1
              \<and> latency a2 div 1000 \<le> TIME_BLOCK_LATENCY_THRESHOLD
              \<and> TIME_BLOCK_LATENCY_THRESHOLD < latency a3 div 1000 \<longrightarrow>
             get_overview_read_accesses [(k1, a1), (k2, a2), (k3, a3)]
               = Inr [(k1, \<lparr>row_values = a1, lowest_access = min (address a1) (address a2),
                            highest_access = max (address a1 + size_a a1) (address a2 + size_a a2)\<rparr>),
                      (k3, opened a3)])
         \<and> ((\<forall>(k, v) \<in> set d. \<not> is_ccp v) \<longrightarrow>
               map fst (annotate_ccp d) = map fst d
               \<and> (\<forall>(k, v) \<in> set (annotate_ccp d). is_ccp v = (size_a v = 0x40)))"
proof (intro conjI)
  from overview_after_access[OF run] obtain k0 row where
    k0: "map_of kn (type_a a1, is_ccp a1) = Some k0" and row: "map_of ov k0 = Some row"
    and cover: "lowest_access row \<le> address a1" "address a1 + size_a a1 \<le> highest_access row"
    by blast
  have split: "pre @ [(k1, a1), (k2, a2)] = (pre @ [(k1, a1)]) @ [(k2, a2)]" by simp
  have join: "overview_loop (pre @ [(k1, a1), (k2, a2)]) [] []
                 = Inr (AList.update k0 (widened row a2) ov, kn)"
    if "type_a a2 = type_a a1 \<and> is_ccp a2 = is_ccp a1
          \<and> latency a2 div 1000 \<le> TIME_BLOCK_LATENCY_THRESHOLD"
  proof -
    from that k0 have "map_of kn (type_a a2, is_ccp a2) = Some k0" by simp
    from overview_step_join[OF _ this row, of k2] that run show ?thesis
      unfolding split overview_loop_append[of "pre @ [(k1, a1)]"] by simp
  qed
  have final: "\<exists>final kn' row'.
                  overview_loop (pre @ (k1, a1) # (k2, a2) # post) [] [] = Inr (final, kn')
                  \<and> map_of final k0 = Some row' \<and> row_values row' = row_values row
                  \<and> lowest_access row' \<le> min (address a1) (address a2)
                  \<and> max (address a1 + size_a a1) (address a2 + size_a a2) \<le> highest_access row'"
    if "type_a a2 = type_a a1 \<and> is_ccp a2 = is_ccp a1
          \<and> latency a2 div 1000 \<le> TIME_BLOCK_LATENCY_THRESHOLD
          \<and> distinct (map fst (pre @ (k1, a1) # (k2, a2) # post))"
    using overview_pair_final[OF run k0 row cover, of a2 k2 post] that by blast
  show "\<exists>k0 row. map_of kn (type_a a1, is_ccp a1) = Some k0 \<and> map_of ov k0 = Some row
            \<and> lowest_access row \<le> address a1 \<and> address a1 + size_a a1 \<le> highest_access row
            \<and> (type_a a2 = type_a a1 \<and> is_ccp a2 = is_ccp a1
                 \<and> latency a2 div 1000 \<le> TIME_BLOCK_LATENCY_THRESHOLD \<longrightarrow>
               overview_loop (pre @ [(k1, a1), (k2, a2)]) [] []
                 = Inr (AList.update k0 (widened row a2) ov, kn))
            \<and> (type_a a2 = type_a a1 \<and> is_ccp a2 = is_ccp a1
                 \<and> latency a2 div 1000 \<le> TIME_BLOCK_LATENCY_THRESHOLD
                 \<and> distinct (map fst (pre @ (k1, a1) # (k2, a2) # post)) \<longrightarrow>
               (\<exists>final kn' row'.
                  overview_loop (pre @ (k1, a1) # (k2, a2) # post) [] [] = Inr (final, kn')
                  \<and> map_of final k0 = Some row' \<and> row_values row' = row_values row
                  \<and> lowest_access row' \<le> min (address a1) (address a2)
                  \<and> max (address a1 + size_a a1) (address a2 + size_a a2) \<le> highest_access row'))"
    by (intro exI[of _ k0] exI[of _ row] conjI impI k0 row cover; (erule join | erule final))
next
  have split: "pre @ [(k1, a1), (k2, a2)] = (pre @ [(k1, a1)]) @ [(k2, a2)]" by simp
  show "TIME_BLOCK_LATENCY_THRESHOLD < latency a2 div 1000 \<longrightarrow>
               overview_loop (pre @ [(k1, a1), (k2, a2)]) [] []
                 = Inr (AList.update k2 (opened a2) ov, [((type_a a2, is_ccp a2), k2)])"
    using overview_step_open_block[of a2 k2 ov kn] run
    unfolding split overview_loop_append[of "pre @ [(k1, a1)]"] by simp
next
  show "(TIME_BLOCK_LATENCY_THRESHOLD < latency a2 div 1000) = (51000 \<le> latency a2)"
    by (rule threshold_in_ns)
next
  show "k1 < k2 \<and> type_a a2 = type_a a1 \<and> is_ccp a2 = is_ccp a1
              \<and> latency a2 div 1000 \<le> TIME_BLOCK_LATENCY_THRESHOLD \<longrightarrow>
             get_overview_read_accesses [(k1, a1), (k2, a2)]
               = Inr [(k1, \<lparr>row_values = a1, lowest_access = min (address a1) (address a2),
                            highest_access = max (address a1 + size_a a1) (address a2 + size_a a2)\<rparr>)]"
    by (simp add: get_overview_read_accesses_def sorted_items_def Let_def)
next
  show "k1 < k2 \<and> k2 < k3 \<and> type_a a2 = type_a a1 \<and> is_ccp a2 = is_ccp a1
              \<and> latency a2 div 1000 \<le> TIME_BLOCK_LATENCY_THRESHOLD
              \<and> TIME_BLOCK_LATENCY_THRESHOLD < latency a3 div 1000 \<longrightarrow>
             get_overview_read_accesses [(k1, a1), (k2, a2), (k3, a3)]
               = Inr [(k1, \<lparr>row_values = a1, lowest_access = min (address a1) (address a2),
                            highest_access = max (address a1 + size_a a1) (address a2 + size_a a2)\<rparr>),
                      (k3, opened a3)]"
    by (simp add: get_overview_read_accesses_def sorted_items_def Let_def opened_def)
next
  show "(\<forall>(k, v) \<in> set d. \<not> is_ccp v) \<longrightarrow>
               map fst (annotate_ccp d) = map fst d
               \<and> (\<forall>(k, v) \<in> set (annotate_ccp d). is_ccp v = (size_a v = 0x40))"
    by (auto simp: annotate_ccp_def is_ccp_def case_prod_unfold split: if_splits)
qed

text \<open>
  Two accesses of type 1 spanning \<open>[0x1000, 0x1010)\<close> and \<open>[0x1020, 0x1030)\<close>, 10 microseconds
  apart, and a third after 100 microseconds; and the annotation of accesses of 64 and 32
  bytes.
\<close>

theorem overview_rows_witness:
  "overview_loop ([] @ [(100000, example_access 0 100000 101000 100000 0x1000 0x10 (Some (EntryType 1)))]) [] []
     = Inr ([(100000, opened (example_access 0 100000 101000 100000 0x1000 0x10 (Some (EntryType 1))))],
            [((Some (EntryType 1), False), 100000)])
   \<and> get_overview_read_accesses
     [(100000, example_access 0 100000 101000 100000 0x1000 0x10 (Some (EntryType 1))),
      (111000, example_access 1 111000 112000 10000 0x1020 0x10 (Some (EntryType 1)))]
     = Inr [(100000, \<lparr>row_values = example_access 0 100000 101000 100000 0x1000 0x10 (Some (EntryType 1)),
                       lowest_access = 0x1000, highest_access = 0x1030\<rparr>)]
   \<and> get_overview_read_accesses
     [(100000, example_access 0 100000 101000 100000 0x1000 0x10 (Some (EntryType 1))),
      (111000, example_access 1 111000 112000 10000 0x1020 0x10 (Some (EntryType 1))),
      (212000, example_access 2 212000 213000 100000 0x1040 0x10 (Some (EntryType 1)))]
     = Inr [(100000, \<lparr>row_values = example_access 0 100000 101000 100000 0x1000 0x10 (Some (EntryType 1)),
                       lowest_access = 0x1000, highest_access = 0x1030\<rparr>),
            (212000, \<lparr>row_values = example_access 2 212000 213000 100000 0x1040 0x10 (Some (EntryType 1)),
                       lowest_access = 0x1040, highest_access = 0x1050\<rparr>)]
   \<and> map (\<lambda>(k, v). (k, size_a v, info v))
        (annotate_ccp [(0, example_access 0 0 10 0 0x2000 0x40 None),
                       (20, example_access 1 20 30 10 0x2040 0x20 None)])
     = [(0, 0x40, [''CCP'']), (20, 0x20, [])]"
proof -
  define A1 where "A1 = example_access 0 100000 101000 100000 0x1000 0x10 (Some (EntryType 1))"
  define A2 where "A2 = example_access 1 111000 112000 10000 0x1020 0x10 (Some (EntryType 1))"
  define A3 where "A3 = example_access 2 212000 213000 100000 0x1040 0x10 (Some (EntryType 1))"
  have run: "overview_loop ([] @ [(100000, A1)]) [] []
               = Inr ([(100000, opened A1)], [((Some (EntryType 1), False), 100000)])"
    by (simp add: A1_def Let_def opened_def example_access_def is_ccp_def)
  have c2: "(100000::int) < 111000 \<and> type_a A2 = type_a A1 \<and> is_ccp A2 = is_ccp A1
              \<and> latency A2 div 1000 \<le> TIME_BLOCK_LATENCY_THRESHOLD"
    by (simp add: A1_def A2_def example_access_def is_ccp_def TIME_BLOCK_LATENCY_THRESHOLD_def)
  have c3: "(100000::int) < 111000 \<and> (111000::int) < 212000 \<and> type_a A2 = type_a A1
              \<and> is_ccp A2 = is_ccp A1
              \<and> latency A2 div 1000 \<le> TIME_BLOCK_LATENCY_THRESHOLD
              \<and> TIME_BLOCK_LATENCY_THRESHOLD < latency A3 div 1000"
    by (simp add: A1_def A2_def A3_def example_access_def is_ccp_def TIME_BLOCK_LATENCY_THRESHOLD_def)
  note inst = overview_rows[OF run, of A2 111000 "[]" 212000 A3 "[]"]
  from inst c2 have two: "get_overview_read_accesses [(100000, A1), (111000, A2)]
      = Inr [(100000, \<lparr>row_values = A1, lowest_access = min (address A1) (address A2),
                   highest_access = max (address A1 + size_a A1) (address A2 + size_a A2)\<rparr>)]"
    by blast
  from inst c3 have three: "get_overview_read_accesses [(100000, A1), (111000, A2), (212000, A3)]
      = Inr [(100000, \<lparr>row_values = A1, lowest_access = min (address A1) (address A2),
                   highest_access = max (address A1 + size_a A1) (address A2 + size_a A2)\<rparr>),
             (212000, opened A3)]"
    by blast
  have ann: "map (\<lambda>(k, v). (k, size_a v, info v))
        (annotate_ccp [(0, example_access 0 0 10 0 0x2000 0x40 None),
                       (20, example_access 1 20 30 10 0x2040 0x20 None)])
     = [(0, 0x40, [''CCP'']), (20, 0x20, [])]"
    by (simp add: annotate_ccp_def example_access_def)
  have sp: "min (address A1) (address A2) = 0x1000"
    "max (address A1 + size_a A1) (address A2 + size_a A2) = 0x1030"
    "opened A3 = \<lparr>row_values = A3, lowest_access = 0x1040, highest_access = 0x1050\<rparr>"
    by (simp_all add: A1_def A2_def A3_def example_access_def opened_def)
  from run two three ann show ?thesis unfolding sp unfolding A1_def A2_def A3_def by simp
qed

text \<open>
  The claim as stated fails for a third access of the same type that arrives 50500 ns
  after the second: its latency is above the threshold of 50 microseconds, yet it opens
  no row and widens the first one to \<open>[0x1000, 0x1050)\<close>.
\<close>

theorem overview_threshold_counterexample:
  "get_overview_read_accesses
     [(100000, example_access 0 100000 101000 100000 0x1000 0x10 (Some (EntryType 1))),
      (111000, example_access 1 111000 112000 10000 0x1020 0x10 (Some (EntryType 1))),
      (162500, example_access 2 162500 163500 50500 0x1040 0x10 (Some (EntryType 1)))]
     = Inr [(100000, \<lparr>row_values = example_access 0 100000 101000 100000 0x1000 0x10 (Some (EntryType 1)),
                       lowest_access = 0x1000, highest_access = 0x1050\<rparr>)]
   \<and> TIME_BLOCK_LATENCY_THRESHOLD * 1000
       < latency (example_access 2 162500 163500 50500 0x1040 0x10 (Some (EntryType 1)))"
  by (simp add: get_overview_read_accesses_def sorted_items_def Let_def example_access_def
        TIME_BLOCK_LATENCY_THRESHOLD_def is_ccp_def)

end
